theory Spec2Isabelle
  imports Complex_Main
begin

section \<open>Tridiagonal matrices and the Thomas algorithm of package tdma\<close>

subsection \<open>Data model\<close>

text \<open>
  The Go package works on \<^verbatim>\<open>float64\<close>. Its functions only use the operations
  \<^verbatim>\<open>+ - * / ==\<close> and the constant \<^verbatim>\<open>0\<close> of that type, so the embedding takes
  them as a record of operations over a carrier \<open>'a\<close>. The program itself is the
  instance at the operations of IEEE-754 binary64, given further below; the instance at
  the exact operations of a field is the algorithm without rounding.

  Go's \<^verbatim>\<open>int\<close> has 64 bits. Every index that the package computes is at most three
  times a slice length, and on a matrix made by \<^verbatim>\<open>New\<close> at most \<^verbatim>\<open>len(m.m) + 2\<close>, so
  no operation on \<^verbatim>\<open>int\<close> wraps around there; \<^verbatim>\<open>int\<close> is modelled by the integers.
\<close>

record 'a float_ops =
  fzero :: 'a
  fadd :: "'a \<Rightarrow> 'a \<Rightarrow> 'a"
  fsub :: "'a \<Rightarrow> 'a \<Rightarrow> 'a"
  fmul :: "'a \<Rightarrow> 'a \<Rightarrow> 'a"
  fdiv :: "'a \<Rightarrow> 'a \<Rightarrow> 'a"
  feq :: "'a \<Rightarrow> 'a \<Rightarrow> bool"

text \<open>
  \<^verbatim>\<open>type Matrix struct { n int; m []float64 }\<close>: an \<open>n \<times> n\<close> matrix in \<open>3n - 2\<close>
  coefficients.
\<close>

record 'a Matrix =
  n :: int
  m :: "'a list"

text \<open>
  The three messages wrapped around \<^verbatim>\<open>ErrTDMA\<close>, with the values they print, and the two
  error values of the package. A run-time panic (index out of range, negative length in
  \<^verbatim>\<open>make\<close>) is not an error value: it is the separate outcome \<open>Panic\<close>.
\<close>

datatype 'a tdma_detail =
  RhsLength int
| ZeroM0
| PivotCollision int int int 'a

datatype 'a failure =
  ErrInvalidTridiagonalMatrix int
| ErrTDMA "'a tdma_detail"
| Panic

subsection \<open>Construction\<close>

text \<open>
  \<^verbatim>\<open>func New(d []float64) (*Matrix, error)\<close>. Go's \<^verbatim>\<open>%\<close> and \<^verbatim>\<open>/\<close> truncate towards zero;
  on the non-negative \<^verbatim>\<open>len(d)\<close> and \<^verbatim>\<open>len(d)-1\<close> (the latter only when \<^verbatim>\<open>len(d) % 3 = 1\<close>)
  they agree with \<open>mod\<close> and \<open>div\<close>.
\<close>

definition New :: "'a list \<Rightarrow> 'a failure + 'a Matrix" where
  "New d =
     (if int (length d) mod 3 \<noteq> 1
      then Inl (ErrInvalidTridiagonalMatrix (int (length d)))
      else Inr \<lparr> n = (int (length d) - 1) div 3 + 1, m = d \<rparr>)"

text \<open>The matrices that \<open>New\<close> can return.\<close>

definition well_formed :: "'a Matrix \<Rightarrow> bool" where
  "well_formed mt \<longleftrightarrow> 1 \<le> n mt \<and> int (length (m mt)) = 3 * n mt - 2"

subsection \<open>Slices and panics\<close>

text \<open>
  An index expression \<^verbatim>\<open>xs[i]\<close> panics outside \<^verbatim>\<open>0 <= i < len(xs)\<close>, as a read and as
  the target of an assignment; \<^verbatim>\<open>make([]float64, k)\<close> panics on a negative \<open>k\<close> and
  otherwise gives \<open>k\<close> zeros. An expression or statement that panics ends the call, so
  the later ones run under \<open>and_then\<close>; \<open>ap2\<close> is a binary operator whose operands are
  evaluated left to right.
\<close>

definition index :: "'a list \<Rightarrow> int \<Rightarrow> 'e failure + 'a" where
  "index xs i = (if 0 \<le> i \<and> i < int (length xs) then Inr (xs ! nat i) else Inl Panic)"

definition store :: "'a list \<Rightarrow> int \<Rightarrow> 'a \<Rightarrow> 'e failure + 'a list" where
  "store xs i v = (if 0 \<le> i \<and> i < int (length xs) then Inr (xs[nat i := v]) else Inl Panic)"

definition make :: "'a float_ops \<Rightarrow> int \<Rightarrow> 'e failure + 'a list" where
  "make ops k = (if 0 \<le> k then Inr (replicate (nat k) (fzero ops)) else Inl Panic)"

definition and_then :: "'e + 'a \<Rightarrow> ('a \<Rightarrow> 'e + 'b) \<Rightarrow> 'e + 'b" where
  "and_then x f = (case x of Inl e \<Rightarrow> Inl e | Inr v \<Rightarrow> f v)"

definition ap2 :: "('a \<Rightarrow> 'b \<Rightarrow> 'c) \<Rightarrow> 'e + 'a \<Rightarrow> 'e + 'b \<Rightarrow> 'e + 'c" where
  "ap2 f x y = and_then x (\<lambda>a. and_then y (\<lambda>b. Inr (f a b)))"

subsection \<open>The solver\<close>

text \<open>
  The adjusted pivot \<^verbatim>\<open>m.m[i3] - m.m[i3-1]*c[i-1]\<close> of row \<open>i\<close> and the test
  \<^verbatim>\<open>m.m[i3] == m.m[i3-1]*c[i-1]\<close> that guards it, with \<^verbatim>\<open>i3 = i * 3\<close>.
\<close>

definition pivot :: "'a float_ops \<Rightarrow> 'a Matrix \<Rightarrow> 'a list \<Rightarrow> int \<Rightarrow> 'a failure + 'a" where
  "pivot ops mt c i =
     ap2 (fsub ops) (index (m mt) (i * 3))
       (ap2 (fmul ops) (index (m mt) (i * 3 - 1)) (index c (i - 1)))"

definition collides :: "'a float_ops \<Rightarrow> 'a Matrix \<Rightarrow> 'a list \<Rightarrow> int \<Rightarrow> 'a failure + bool" where
  "collides ops mt c i =
     ap2 (feq ops) (index (m mt) (i * 3))
       (ap2 (fmul ops) (index (m mt) (i * 3 - 1)) (index c (i - 1)))"

definition collision :: "'a Matrix \<Rightarrow> int \<Rightarrow> 'a failure + 'b" where
  "collision mt i =
     and_then (index (m mt) (i * 3))
       (\<lambda>v. Inl (ErrTDMA (PivotCollision (i * 3) (i * 3 - 1) (i - 1) v)))"

text \<open>
  \<^verbatim>\<open>for i := 1; i < m.n-1; i++\<close>: the elimination of the super-diagonal into \<open>c\<close>.
\<close>

function elim_loop :: "'a float_ops \<Rightarrow> 'a Matrix \<Rightarrow> 'a list \<Rightarrow> int \<Rightarrow> 'a failure + 'a list" where
  "elim_loop ops mt c i =
     (if i < n mt - 1 then
        and_then (collides ops mt c i) (\<lambda>eq.
          if eq then collision mt i
          else
            and_then (ap2 (fdiv ops) (index (m mt) (i * 3 + 1)) (pivot ops mt c i)) (\<lambda>v.
            and_then (store c i v) (\<lambda>c'.
            elim_loop ops mt c' (i + 1))))
      else Inr c)"
  by pat_completeness auto

termination
  by (relation "measure (\<lambda>(ops, mt, c, i). nat (n mt - 1 - i))") auto

text \<open>
  \<^verbatim>\<open>for i := 1; i < m.n; i++\<close>: the forward substitution into \<open>d\<close>.
\<close>

function subst_loop ::
  "'a float_ops \<Rightarrow> 'a Matrix \<Rightarrow> 'a list \<Rightarrow> 'a list \<Rightarrow> 'a list \<Rightarrow> int \<Rightarrow> 'a failure + 'a list" where
  "subst_loop ops mt r c d i =
     (if i < n mt then
        and_then
          (ap2 (fdiv ops)
             (ap2 (fsub ops) (index r i)
                (ap2 (fmul ops) (index (m mt) (i * 3 - 1)) (index d (i - 1))))
             (pivot ops mt c i)) (\<lambda>v.
        and_then (store d i v) (\<lambda>d'.
        subst_loop ops mt r c d' (i + 1)))
      else Inr d)"
  by pat_completeness auto

termination
  by (relation "measure (\<lambda>(ops, mt, r, c, d, i). nat (n mt - i))") auto

text \<open>
  \<^verbatim>\<open>for i := m.n - 2; 0 <= i; i--\<close>: the back substitution into \<open>x\<close>.
\<close>

function back_loop ::
  "'a float_ops \<Rightarrow> 'a list \<Rightarrow> 'a list \<Rightarrow> 'a list \<Rightarrow> int \<Rightarrow> 'a failure + 'a list" where
  "back_loop ops c d x i =
     (if 0 \<le> i then
        and_then
          (ap2 (fsub ops) (index d i)
             (ap2 (fmul ops) (index c i) (index x (i + 1)))) (\<lambda>v.
        and_then (store x i v) (\<lambda>x'.
        back_loop ops c d x' (i - 1)))
      else Inr x)"
  by pat_completeness auto

termination
  by (relation "measure (\<lambda>(ops, c, d, x, i). nat (i + 1))") auto

text \<open>\<^verbatim>\<open>func (m *Matrix) TDMA(r []float64) ([]float64, error)\<close>.\<close>

definition TDMA :: "'a float_ops \<Rightarrow> 'a Matrix \<Rightarrow> 'a list \<Rightarrow> 'a failure + 'a list" where
  "TDMA ops mt r =
     (if int (length r) \<noteq> n mt then Inl (ErrTDMA (RhsLength (n mt)))
      else
        and_then (make ops (n mt - 1)) (\<lambda>c.
        and_then (ap2 (feq ops) (index (m mt) 0) (Inr (fzero ops))) (\<lambda>z.
          if z then Inl (ErrTDMA ZeroM0)
          else
            and_then (ap2 (fdiv ops) (index (m mt) 1) (index (m mt) 0)) (\<lambda>v.
            and_then (store c 0 v) (\<lambda>c.
            and_then (elim_loop ops mt c 1) (\<lambda>c.
            and_then (collides ops mt c (n mt - 1)) (\<lambda>eq.
              if eq then collision mt (n mt - 1)
              else
                and_then (make ops (n mt)) (\<lambda>d.
                and_then (ap2 (fdiv ops) (index r 0) (index (m mt) 0)) (\<lambda>v.
                and_then (store d 0 v) (\<lambda>d.
                and_then (subst_loop ops mt r c d 1) (\<lambda>d.
                and_then (make ops (n mt)) (\<lambda>x.
                and_then (index d (n mt - 1)) (\<lambda>v.
                and_then (store x (n mt - 1) v) (\<lambda>x.
                back_loop ops c d x (n mt - 2)))))))))))))))"

subsection \<open>The determinant\<close>

text \<open>
  \<^verbatim>\<open>func detF(elem []float64, n int) float64\<close> calls itself at \<^verbatim>\<open>n-1\<close> and \<^verbatim>\<open>n-2\<close>
  for every \<^verbatim>\<open>n\<close> other than 0 and 1. Nothing in the function bounds the recursion, so
  the model is a partial function: \<open>None\<close> stands for a call that does not return. The
  two calls come first, left to right, then the products with their index expressions;
  a panic of a call ends the caller. (Go leaves the order between a call and an index
  expression open; it makes a difference only for a negative \<^verbatim>\<open>n\<close> or a slice that is
  too short.)
\<close>

partial_function (option) detF ::
  "'a float_ops \<Rightarrow> 'a list \<Rightarrow> int \<Rightarrow> ('a failure + 'a) option" where
  "detF ops elem k =
     (if k = 0 then Some (index elem 0)
      else if k = 1 then
        Some (ap2 (fsub ops)
                (ap2 (fmul ops) (index elem 3) (index elem 0))
                (ap2 (fmul ops) (index elem 2) (index elem 1)))
      else
        Option.bind (detF ops elem (k - 1)) (\<lambda>a.
          case a of Inl e \<Rightarrow> Some (Inl e) | Inr a' \<Rightarrow>
        Option.bind (detF ops elem (k - 2)) (\<lambda>b.
          case b of Inl e \<Rightarrow> Some (Inl e) | Inr b' \<Rightarrow>
        Some (ap2 (fsub ops)
                (ap2 (fmul ops) (index elem (k * 3)) (Inr a'))
                (ap2 (fmul ops)
                   (ap2 (fmul ops) (index elem (k * 3 - 1)) (index elem (k * 3 - 2)))
                   (Inr b'))))))"

declare detF.simps [code]

text \<open>\<^verbatim>\<open>func (m *Matrix) Determinant() float64 { return detF(m.m, m.n-1) }\<close>\<close>

definition Determinant :: "'a float_ops \<Rightarrow> 'a Matrix \<Rightarrow> ('a failure + 'a) option" where
  "Determinant ops mt = detF ops (m mt) (n mt - 1)"

subsection \<open>The solver with its slices in a store\<close>

text \<open>
  A Go slice refers to an array in memory, and an assignment \<^verbatim>\<open>xs[i] = v\<close> changes that
  array for everyone who holds a slice of it. To see which arrays a call of \<^verbatim>\<open>TDMA\<close>
  changes, this second embedding of the same function keeps the arrays in a store: the
  store is the list of all arrays, a slice is the position of its array in that list (the
  slices \<^verbatim>\<open>c\<close>, \<^verbatim>\<open>d\<close>, \<^verbatim>\<open>x\<close> of \<^verbatim>\<open>TDMA\<close> cover their whole arrays; those of the caller are
  taken to do so), and \<^verbatim>\<open>make\<close> appends a new array. A step takes the store and returns
  its result, or the failure that ends the call, with the store it leaves.
\<close>

type_synonym 'a heap = "'a list list"

type_synonym ('a, 'r) run = "'a heap \<Rightarrow> ('a failure + 'r) \<times> 'a heap"

text \<open>
  A value, an error return or panic, and the sequence of two steps; \<open>op2\<close> is a binary
  operator with its operands evaluated left to right.
\<close>

definition ret :: "'r \<Rightarrow> ('a, 'r) run" where
  "ret v h = (Inr v, h)"

definition fail :: "'a failure \<Rightarrow> ('a, 'r) run" where
  "fail e h = (Inl e, h)"

definition seq :: "('a, 'r) run \<Rightarrow> ('r \<Rightarrow> ('a, 's) run) \<Rightarrow> ('a, 's) run" where
  "seq f g h = (case f h of (Inl e, h') \<Rightarrow> (Inl e, h') | (Inr v, h') \<Rightarrow> g v h')"

definition op2 :: "('b \<Rightarrow> 'c \<Rightarrow> 'd) \<Rightarrow> ('a, 'b) run \<Rightarrow> ('a, 'c) run \<Rightarrow> ('a, 'd) run" where
  "op2 f x y = seq x (\<lambda>a. seq y (\<lambda>b. ret (f a b)))"

text \<open>
  \<^verbatim>\<open>len(xs)\<close>, the read of \<^verbatim>\<open>xs[i]\<close>, the assignment \<^verbatim>\<open>xs[i] = v\<close> and
  \<^verbatim>\<open>make([]float64, k)\<close>, for the slice at position \<open>a\<close>.
\<close>

definition len :: "nat \<Rightarrow> ('a, int) run" where
  "len a h = (Inr (int (length (h ! a))), h)"

definition rd :: "nat \<Rightarrow> int \<Rightarrow> ('a, 'a) run" where
  "rd a i h = (index (h ! a) i, h)"

definition wr :: "nat \<Rightarrow> int \<Rightarrow> 'a \<Rightarrow> ('a, unit) run" where
  "wr a i v h = (case store (h ! a) i v of Inl e \<Rightarrow> (Inl e, h) | Inr xs \<Rightarrow> (Inr (), h[a := xs]))"

definition new :: "'a float_ops \<Rightarrow> int \<Rightarrow> ('a, nat) run" where
  "new ops k h = (case make ops k of Inl e \<Rightarrow> (Inl e, h) | Inr xs \<Rightarrow> (Inr (length h), h @ [xs]))"

text \<open>
  The function \<^verbatim>\<open>TDMA\<close> statement by statement, as above: \<open>nn\<close> is \<^verbatim>\<open>m.n\<close>, \<open>am\<close> the slice
  \<^verbatim>\<open>m.m\<close> and \<open>ar\<close> the slice \<^verbatim>\<open>r\<close>; the result is the slice \<^verbatim>\<open>x\<close>.
\<close>

definition pivot_h :: "'a float_ops \<Rightarrow> nat \<Rightarrow> nat \<Rightarrow> int \<Rightarrow> ('a, 'a) run" where
  "pivot_h ops am ac i =
     op2 (fsub ops) (rd am (i * 3)) (op2 (fmul ops) (rd am (i * 3 - 1)) (rd ac (i - 1)))"

definition collides_h :: "'a float_ops \<Rightarrow> nat \<Rightarrow> nat \<Rightarrow> int \<Rightarrow> ('a, bool) run" where
  "collides_h ops am ac i =
     op2 (feq ops) (rd am (i * 3)) (op2 (fmul ops) (rd am (i * 3 - 1)) (rd ac (i - 1)))"

definition collision_h :: "nat \<Rightarrow> int \<Rightarrow> ('a, 'r) run" where
  "collision_h am i =
     seq (rd am (i * 3)) (\<lambda>v. fail (ErrTDMA (PivotCollision (i * 3) (i * 3 - 1) (i - 1) v)))"

function elim_loop_h :: "'a float_ops \<Rightarrow> int \<Rightarrow> nat \<Rightarrow> nat \<Rightarrow> int \<Rightarrow> ('a, unit) run" where
  "elim_loop_h ops nn am ac i h =
     (if i < nn - 1 then
        seq (collides_h ops am ac i) (\<lambda>eq.
          if eq then collision_h am i
          else
            seq (op2 (fdiv ops) (rd am (i * 3 + 1)) (pivot_h ops am ac i)) (\<lambda>v.
            seq (wr ac i v) (\<lambda>_ h'.
            elim_loop_h ops nn am ac (i + 1) h'))) h
      else ret () h)"
  by pat_completeness auto

termination
  by (relation "measure (\<lambda>(ops, nn, am, ac, i, h). nat (nn - 1 - i))") auto

function subst_loop_h ::
  "'a float_ops \<Rightarrow> int \<Rightarrow> nat \<Rightarrow> nat \<Rightarrow> nat \<Rightarrow> nat \<Rightarrow> int \<Rightarrow> ('a, unit) run" where
  "subst_loop_h ops nn am ar ac ad i h =
     (if i < nn then
        seq (op2 (fdiv ops)
               (op2 (fsub ops) (rd ar i) (op2 (fmul ops) (rd am (i * 3 - 1)) (rd ad (i - 1))))
               (pivot_h ops am ac i)) (\<lambda>v.
        seq (wr ad i v) (\<lambda>_ h'.
        subst_loop_h ops nn am ar ac ad (i + 1) h')) h
      else ret () h)"
  by pat_completeness auto

termination
  by (relation "measure (\<lambda>(ops, nn, am, ar, ac, ad, i, h). nat (nn - i))") auto

function back_loop_h :: "'a float_ops \<Rightarrow> nat \<Rightarrow> nat \<Rightarrow> nat \<Rightarrow> int \<Rightarrow> ('a, unit) run" where
  "back_loop_h ops ac ad ax i h =
     (if 0 \<le> i then
        seq (op2 (fsub ops) (rd ad i) (op2 (fmul ops) (rd ac i) (rd ax (i + 1)))) (\<lambda>v.
        seq (wr ax i v) (\<lambda>_ h'.
        back_loop_h ops ac ad ax (i - 1) h')) h
      else ret () h)"
  by pat_completeness auto

termination
  by (relation "measure (\<lambda>(ops, ac, ad, ax, i, h). nat (i + 1))") auto

definition TDMA_h :: "'a float_ops \<Rightarrow> int \<Rightarrow> nat \<Rightarrow> nat \<Rightarrow> ('a, nat) run" where
  "TDMA_h ops nn am ar =
     seq (len ar) (\<lambda>l.
       if l \<noteq> nn then fail (ErrTDMA (RhsLength nn))
       else
         seq (new ops (nn - 1)) (\<lambda>ac.
         seq (op2 (feq ops) (rd am 0) (ret (fzero ops))) (\<lambda>z.
           if z then fail (ErrTDMA ZeroM0)
           else
             seq (op2 (fdiv ops) (rd am 1) (rd am 0)) (\<lambda>v.
             seq (wr ac 0 v) (\<lambda>_.
             seq (elim_loop_h ops nn am ac 1) (\<lambda>_.
             seq (collides_h ops am ac (nn - 1)) (\<lambda>eq.
               if eq then collision_h am (nn - 1)
               else
                 seq (new ops nn) (\<lambda>ad.
                 seq (op2 (fdiv ops) (rd ar 0) (rd am 0)) (\<lambda>v.
                 seq (wr ad 0 v) (\<lambda>_.
                 seq (subst_loop_h ops nn am ar ac ad 1) (\<lambda>_.
                 seq (new ops nn) (\<lambda>ax.
                 seq (rd ad (nn - 1)) (\<lambda>v.
                 seq (wr ax (nn - 1) v) (\<lambda>_.
                 seq (back_loop_h ops ac ad ax (nn - 2)) (\<lambda>_.
                 ret ax)))))))))))))))"

text \<open>
  What a caller sees of a result: the error, or the contents of the returned slice.
\<close>

definition outcome :: "'a heap \<Rightarrow> 'a failure + nat \<Rightarrow> 'a failure + 'a list" where
  "outcome h res = (case res of Inl e \<Rightarrow> Inl e | Inr ax \<Rightarrow> Inr (h ! ax))"

text \<open>
  For the proofs, the part of \<open>TDMA\<close> and of \<open>TDMA_h\<close> from the allocation of \<^verbatim>\<open>d\<close> on, and
  the part from the allocation of \<^verbatim>\<open>x\<close> on.
\<close>

definition back_phase :: "'a float_ops \<Rightarrow> 'a Matrix \<Rightarrow> 'a list \<Rightarrow> 'a list \<Rightarrow> 'a failure + 'a list" where
  "back_phase ops mt c d =
     and_then (make ops (n mt)) (\<lambda>x.
     and_then (index d (n mt - 1)) (\<lambda>v.
     and_then (store x (n mt - 1) v) (\<lambda>x.
     back_loop ops c d x (n mt - 2))))"

definition subst_phase ::
  "'a float_ops \<Rightarrow> 'a Matrix \<Rightarrow> 'a list \<Rightarrow> 'a list \<Rightarrow> 'a failure + 'a list" where
  "subst_phase ops mt r c =
     and_then (make ops (n mt)) (\<lambda>d.
     and_then (ap2 (fdiv ops) (index r 0) (index (m mt) 0)) (\<lambda>v.
     and_then (store d 0 v) (\<lambda>d.
     and_then (subst_loop ops mt r c d 1) (\<lambda>d.
     back_phase ops mt c d))))"

definition back_phase_h :: "'a float_ops \<Rightarrow> int \<Rightarrow> nat \<Rightarrow> nat \<Rightarrow> ('a, nat) run" where
  "back_phase_h ops nn ac ad =
     seq (new ops nn) (\<lambda>ax.
     seq (rd ad (nn - 1)) (\<lambda>v.
     seq (wr ax (nn - 1) v) (\<lambda>_.
     seq (back_loop_h ops ac ad ax (nn - 2)) (\<lambda>_.
     ret ax))))"

definition subst_phase_h ::
  "'a float_ops \<Rightarrow> int \<Rightarrow> nat \<Rightarrow> nat \<Rightarrow> nat \<Rightarrow> ('a, nat) run" where
  "subst_phase_h ops nn am ar ac =
     seq (new ops nn) (\<lambda>ad.
     seq (op2 (fdiv ops) (rd ar 0) (rd am 0)) (\<lambda>v.
     seq (wr ad 0 v) (\<lambda>_.
     seq (subst_loop_h ops nn am ar ac ad 1) (\<lambda>_.
     back_phase_h ops nn ac ad))))"

subsection \<open>The algorithm as the specification words it\<close>

text \<open>
  The definitions of this subsection are not taken from the code: they follow the
  wording of the specification, and the properties below compare the code with them.

  The layout of the specification: row \<open>i\<close> has its diagonal entry at offset \<open>3i\<close>, its
  sub-diagonal entry at \<open>3i - 1\<close> and its super-diagonal entry at \<open>3i + 1\<close>.
\<close>

definition diag :: "'a Matrix \<Rightarrow> nat \<Rightarrow> 'a" where
  "diag mt i = m mt ! (3 * i)"

definition subdiag :: "'a Matrix \<Rightarrow> nat \<Rightarrow> 'a" where
  "subdiag mt i = m mt ! (3 * i - 1)"

definition superdiag :: "'a Matrix \<Rightarrow> nat \<Rightarrow> 'a" where
  "superdiag mt i = m mt ! (3 * i + 1)"

text \<open>
  The three steps of the solver: \<open>c[0] = superdiag(0) / diag(0)\<close> and
  \<open>c[i] = superdiag(i) / (diag(i) - subdiag(i) * c[i-1])\<close>; \<open>d[0] = r[0] / diag(0)\<close> and
  \<open>d[i] = (r[i] - subdiag(i) * d[i-1]) / (diag(i) - subdiag(i) * c[i-1])\<close>;
  \<open>x[n-1] = d[n-1]\<close> and \<open>x[i] = d[i] - c[i] * x[i+1]\<close>.
\<close>

fun c_spec :: "'a float_ops \<Rightarrow> 'a Matrix \<Rightarrow> nat \<Rightarrow> 'a" where
  "c_spec ops mt 0 = fdiv ops (superdiag mt 0) (diag mt 0)"
| "c_spec ops mt (Suc i) =
     fdiv ops (superdiag mt (Suc i))
       (fsub ops (diag mt (Suc i)) (fmul ops (subdiag mt (Suc i)) (c_spec ops mt i)))"

fun d_spec :: "'a float_ops \<Rightarrow> 'a Matrix \<Rightarrow> 'a list \<Rightarrow> nat \<Rightarrow> 'a" where
  "d_spec ops mt r 0 = fdiv ops (r ! 0) (diag mt 0)"
| "d_spec ops mt r (Suc i) =
     fdiv ops (fsub ops (r ! Suc i) (fmul ops (subdiag mt (Suc i)) (d_spec ops mt r i)))
       (fsub ops (diag mt (Suc i)) (fmul ops (subdiag mt (Suc i)) (c_spec ops mt i)))"

function x_spec :: "'a float_ops \<Rightarrow> 'a Matrix \<Rightarrow> 'a list \<Rightarrow> nat \<Rightarrow> 'a" where
  "x_spec ops mt r i =
     (if Suc i < nat (n mt)
      then fsub ops (d_spec ops mt r i) (fmul ops (c_spec ops mt i) (x_spec ops mt r (Suc i)))
      else d_spec ops mt r i)"
  by pat_completeness auto

termination
  by (relation "measure (\<lambda>(ops, mt, r, i). nat (n mt) - i)") auto

text \<open>
  The pivot test of row \<open>i \<ge> 1\<close>, \<open>diag(i) == subdiag(i) * c[i-1]\<close>, and the failure that
  names the row: the offsets \<open>3i\<close> and \<open>3i - 1\<close>, the index \<open>i - 1\<close> and the value of the
  diagonal entry.
\<close>

definition zero_pivot :: "'a float_ops \<Rightarrow> 'a Matrix \<Rightarrow> nat \<Rightarrow> bool" where
  "zero_pivot ops mt i \<longleftrightarrow>
     feq ops (diag mt i) (fmul ops (subdiag mt i) (c_spec ops mt (i - 1)))"

definition pivot_failure :: "'a Matrix \<Rightarrow> nat \<Rightarrow> 'a failure" where
  "pivot_failure mt i =
     ErrTDMA (PivotCollision (int (3 * i)) (int (3 * i) - 1) (int i - 1) (diag mt i))"



text \<open>
  The solver as a whole: the length check, the test of row 0, the first row whose pivot
  test fires, and otherwise the vector \<open>x\<close>.
\<close>

definition solve_spec :: "'a float_ops \<Rightarrow> 'a Matrix \<Rightarrow> 'a list \<Rightarrow> 'a failure + 'a list" where
  "solve_spec ops mt r =
     (if int (length r) \<noteq> n mt then Inl (ErrTDMA (RhsLength (n mt)))
      else if feq ops (diag mt 0) (fzero ops) then Inl (ErrTDMA ZeroM0)
      else case List.find (zero_pivot ops mt) [1 ..< nat (n mt)] of
             Some i \<Rightarrow> Inl (pivot_failure mt i)
           | None \<Rightarrow> Inr (map (x_spec ops mt r) [0 ..< nat (n mt)]))"

text \<open>
  The recurrence of the determinant over the leading principal submatrices.
\<close>

fun det_spec :: "'a float_ops \<Rightarrow> 'a Matrix \<Rightarrow> nat \<Rightarrow> 'a" where
  "det_spec ops mt 0 = diag mt 0"
| "det_spec ops mt (Suc 0) =
     fsub ops (fmul ops (diag mt 1) (diag mt 0)) (fmul ops (subdiag mt 1) (superdiag mt 0))"
| "det_spec ops mt (Suc (Suc k)) =
     fsub ops (fmul ops (diag mt (Suc (Suc k))) (det_spec ops mt (Suc k)))
       (fmul ops (fmul ops (subdiag mt (Suc (Suc k))) (superdiag mt (Suc k)))
          (det_spec ops mt k))"

subsection \<open>The arithmetic of float64\<close>

text \<open>
  IEEE-754 binary64 with the default rounding (to nearest, ties to even), as Go's
  \<^verbatim>\<open>float64\<close> has it. \<open>Finite s k e\<close> is the value \<open>k * 2 ^ e\<close>, negated when \<open>s\<close> holds;
  the results of the operations have \<open>k < 2 ^ 53\<close> and \<open>-1074 \<le> e \<le> 971\<close>. The payload
  of a NaN is not modelled: no operation of the package reads it. Every operation
  rounds on its own, as on amd64; where the Go compiler fuses \<^verbatim>\<open>x*y\<close> with a following
  addition or subtraction (arm64, ppc64, s390x), the last bits of a result may differ.

  An exact result \<open>p / q * 2 ^ e\<close> is rounded by \<open>round_f64\<close>: \<open>floor_log2\<close> finds the
  binade of \<open>p / q\<close> from the bit lengths, the exponent of the result is 52 below the
  binade but not below \<open>-1074\<close> (subnormal numbers), and \<open>round_even\<close> rounds the
  quotient to an integer, a tie to the even one.
\<close>

datatype float64 =
  Finite bool nat int
| Infinity bool
| NaN

fun bitlen :: "nat \<Rightarrow> nat" where
  "bitlen k = (if k = 0 then 0 else Suc (bitlen (k div 2)))"

declare bitlen.simps [simp del]

definition floor_log2 :: "nat \<Rightarrow> nat \<Rightarrow> int" where
  "floor_log2 p q =
     (let d = int (bitlen p) - int (bitlen q)
      in if q * 2 ^ nat d \<le> p * 2 ^ nat (- d) then d else d - 1)"

definition round_even :: "nat \<Rightarrow> nat \<Rightarrow> nat" where
  "round_even num den =
     (let k = num div den; rem = num mod den
      in if 2 * rem < den then k
         else if den < 2 * rem then k + 1
         else if even k then k else k + 1)"

definition round_f64 :: "bool \<Rightarrow> nat \<Rightarrow> nat \<Rightarrow> int \<Rightarrow> float64" where
  "round_f64 s p q e =
     (if p = 0 then Finite s 0 0
      else
        let l = floor_log2 p q + e;
            ex = max (l - 52) (- 1074);
            k = round_even (p * 2 ^ nat (e - ex)) (q * 2 ^ nat (ex - e))
        in if 971 < ex \<or> (ex = 971 \<and> 2 ^ 53 \<le> k) then Infinity s
           else if k = 2 ^ 53 then Finite s (2 ^ 52) (ex + 1)
           else Finite s k ex)"

definition f64_of_int :: "int \<Rightarrow> float64" where
  "f64_of_int k = round_f64 (k < 0) (nat \<bar>k\<bar>) 1 0"

definition f64_neg :: "float64 \<Rightarrow> float64" where
  "f64_neg x = (case x of Finite s k e \<Rightarrow> Finite (\<not> s) k e | Infinity s \<Rightarrow> Infinity (\<not> s) | NaN \<Rightarrow> NaN)"

definition signed :: "bool \<Rightarrow> nat \<Rightarrow> int" where
  "signed s k = (if s then - int k else int k)"

fun f64_add :: "float64 \<Rightarrow> float64 \<Rightarrow> float64" where
  "f64_add NaN y = NaN"
| "f64_add x NaN = NaN"
| "f64_add (Infinity s) (Infinity t) = (if s = t then Infinity s else NaN)"
| "f64_add (Infinity s) (Finite t k e) = Infinity s"
| "f64_add (Finite s k e) (Infinity t) = Infinity t"
| "f64_add (Finite s1 k1 e1) (Finite s2 k2 e2) =
     (let e = min e1 e2;
          a = signed s1 k1 * 2 ^ nat (e1 - e) + signed s2 k2 * 2 ^ nat (e2 - e)
      in if a = 0 then Finite (s1 \<and> s2) 0 0
         else round_f64 (a < 0) (nat \<bar>a\<bar>) 1 e)"

definition f64_sub :: "float64 \<Rightarrow> float64 \<Rightarrow> float64" where
  "f64_sub x y = f64_add x (f64_neg y)"

fun f64_mul :: "float64 \<Rightarrow> float64 \<Rightarrow> float64" where
  "f64_mul NaN y = NaN"
| "f64_mul x NaN = NaN"
| "f64_mul (Infinity s) (Infinity t) = Infinity (s \<noteq> t)"
| "f64_mul (Infinity s) (Finite t k e) = (if k = 0 then NaN else Infinity (s \<noteq> t))"
| "f64_mul (Finite s k e) (Infinity t) = (if k = 0 then NaN else Infinity (s \<noteq> t))"
| "f64_mul (Finite s1 k1 e1) (Finite s2 k2 e2) = round_f64 (s1 \<noteq> s2) (k1 * k2) 1 (e1 + e2)"

fun f64_div :: "float64 \<Rightarrow> float64 \<Rightarrow> float64" where
  "f64_div NaN y = NaN"
| "f64_div x NaN = NaN"
| "f64_div (Infinity s) (Infinity t) = NaN"
| "f64_div (Infinity s) (Finite t k e) = Infinity (s \<noteq> t)"
| "f64_div (Finite s k e) (Infinity t) = Finite (s \<noteq> t) 0 0"
| "f64_div (Finite s1 k1 e1) (Finite s2 k2 e2) =
     (if k2 = 0 then (if k1 = 0 then NaN else Infinity (s1 \<noteq> s2))
      else round_f64 (s1 \<noteq> s2) k1 k2 (e1 - e2))"

fun f64_eq :: "float64 \<Rightarrow> float64 \<Rightarrow> bool" where
  "f64_eq NaN y = False"
| "f64_eq x NaN = False"
| "f64_eq (Infinity s) (Infinity t) = (s = t)"
| "f64_eq (Infinity s) (Finite t k e) = False"
| "f64_eq (Finite s k e) (Infinity t) = False"
| "f64_eq (Finite s1 k1 e1) (Finite s2 k2 e2) =
     (let e = min e1 e2
      in signed s1 k1 * 2 ^ nat (e1 - e) = signed s2 k2 * 2 ^ nat (e2 - e))"

text \<open>
  The value of \<open>x\<close> is finite and at most \<open>eps\<close> away from \<open>y\<close>, exactly (in the
  rationals).
\<close>

definition close_to :: "float64 \<Rightarrow> rat \<Rightarrow> rat \<Rightarrow> bool" where
  "close_to x y eps =
     (case x of Finite s k e \<Rightarrow> \<bar>of_int (signed s k) * 2 powi e - y\<bar> \<le> eps | _ \<Rightarrow> False)"

definition ieee :: "float64 float_ops" where
  "ieee = \<lparr> fzero = Finite False 0 0, fadd = f64_add, fsub = f64_sub, fmul = f64_mul,
            fdiv = f64_div, feq = f64_eq \<rparr>"

text \<open>The same operations without rounding, in a field.\<close>

definition exact :: "'a::field float_ops" where
  "exact = \<lparr> fzero = 0, fadd = (+), fsub = (-), fmul = (*), fdiv = (/), feq = (=) \<rparr>"

section \<open>Properties\<close>

subsection \<open>Reading and writing in range\<close>

lemma and_then_Inr [simp]: "and_then (Inr v) f = f v"
  by (simp add: and_then_def)

lemma and_then_Inl [simp]: "and_then (Inl e) f = Inl e"
  by (simp add: and_then_def)

lemma ap2_Inr [simp]: "ap2 f (Inr a) (Inr b) = Inr (f a b)"
  by (simp add: ap2_def)

lemma ap2_Inl [simp]: "ap2 f (Inl e) y = Inl e"
  by (simp add: ap2_def)

lemma index_in [simp]: "i < length xs \<Longrightarrow> index xs (int i) = Inr (xs ! i)"
  by (simp add: index_def)

lemma store_in [simp]: "i < length xs \<Longrightarrow> store xs (int i) v = Inr (xs[i := v])"
  by (simp add: store_def)

lemma index_out: "length xs \<le> i \<Longrightarrow> index xs (int i) = Inl Panic"
  by (simp add: index_def)

subsection \<open>The rows of a matrix in the code\<close>

text \<open>
  In row \<open>i\<close> of a well-formed matrix the index expressions of the code are in range,
  and they read the entries that the specification names.
\<close>

lemma row_indices:
  assumes "well_formed mt" "0 < i" "int i < n mt"
  shows "index (m mt) (int i * 3) = (Inr (diag mt i) :: 'e failure + 'a)"
    and "index (m mt) (int i * 3 - 1) = (Inr (subdiag mt i) :: 'e failure + 'a)"
proof -
  from assms have l: "int i * 3 < int (length (m mt))"
    by (auto simp: well_formed_def)
  have e: "nat (int i * 3) = 3 * i" "nat (int i * 3 - 1) = 3 * i - 1"
    by auto
  show "index (m mt) (int i * 3) = (Inr (diag mt i) :: 'e failure + 'a)"
    using l by (simp add: index_def diag_def e del: of_nat_mult)
  show "index (m mt) (int i * 3 - 1) = (Inr (subdiag mt i) :: 'e failure + 'a)"
    using l assms(2) by (simp add: index_def subdiag_def e)
qed

lemma prev_index:
  assumes "0 < i" "i - 1 < length c"
  shows "index c (int i - 1) = Inr (c ! (i - 1))"
proof -
  have "nat (int i - 1) = i - 1"
    by simp
  moreover have "0 \<le> int i - 1" "int i - 1 < int (length c)"
    using assms by linarith+
  ultimately show ?thesis
    by (simp only: index_def simp_thms if_True)
qed

lemma collides_row:
  assumes "well_formed mt" "0 < i" "int i < n mt" "i - 1 < length c"
    "c ! (i - 1) = c_spec ops mt (i - 1)"
  shows "collides ops mt c (int i) = Inr (zero_pivot ops mt i)"
  unfolding collides_def using assms(5)
  by (simp add: row_indices [OF assms(1-3)] prev_index [OF assms(2,4)] zero_pivot_def)

lemma pivot_row:
  assumes "well_formed mt" "0 < i" "int i < n mt" "i - 1 < length c"
    "c ! (i - 1) = c_spec ops mt (i - 1)"
  shows "pivot ops mt c (int i) =
     Inr (fsub ops (diag mt i) (fmul ops (subdiag mt i) (c_spec ops mt (i - 1))))"
  unfolding pivot_def using assms(5)
  by (simp add: row_indices [OF assms(1-3)] prev_index [OF assms(2,4)])

lemma collision_row:
  assumes "well_formed mt" "0 < i" "int i < n mt"
  shows "collision mt (int i) = Inl (pivot_failure mt i)"
  unfolding collision_def
  by (simp add: row_indices [OF assms] pivot_failure_def)

lemma super_index:
  assumes "well_formed mt" "int i < n mt - 1"
  shows "index (m mt) (int i * 3 + 1) = (Inr (superdiag mt i) :: 'e failure + 'a)"
proof -
  from assms have l: "int i * 3 + 1 < int (length (m mt))"
    by (auto simp: well_formed_def)
  have e: "nat (int i * 3 + 1) = 3 * i + 1"
    by auto
  show ?thesis
    using l by (simp add: index_def superdiag_def e)
qed

lemma c_spec_pos:
  "0 < i \<Longrightarrow> c_spec ops mt i =
     fdiv ops (superdiag mt i)
       (fsub ops (diag mt i) (fmul ops (subdiag mt i) (c_spec ops mt (i - 1))))"
  by (cases i) simp_all

lemma d_spec_pos:
  "0 < i \<Longrightarrow> d_spec ops mt r i =
     fdiv ops (fsub ops (r ! i) (fmul ops (subdiag mt i) (d_spec ops mt r (i - 1))))
       (fsub ops (diag mt i) (fmul ops (subdiag mt i) (c_spec ops mt (i - 1))))"
  by (cases i) simp_all

lemma take_Suc_update:
  "i < length xs \<Longrightarrow> take (Suc i) (xs[i := v]) = take i xs @ [v]"
  by (simp add: take_Suc_conv_app_nth)

declare elim_loop.simps [simp del] subst_loop.simps [simp del] back_loop.simps [simp del]

lemma int_succ: "int i + 1 = int (Suc i)"
  by simp

subsection \<open>The elimination, the substitution and the back substitution\<close>

text \<open>
  Each loop, started with its slice filled up to \<open>i\<close> by the values of the
  specification, ends with the slice filled completely; the first loop stops at the
  first row whose pivot test fires.
\<close>

lemma elim_loop_spec:
  assumes wf: "well_formed mt"
    and len: "length c = nat (n mt - 1)"
    and pos: "0 < i"
    and inv: "\<forall>j<i. j < length c \<longrightarrow> c ! j = c_spec ops mt j"
  shows "elim_loop ops mt c (int i) =
     (case List.find (zero_pivot ops mt) [i ..< nat (n mt - 1)] of
        Some j \<Rightarrow> Inl (pivot_failure mt j)
      | None \<Rightarrow> Inr (take i c @ map (c_spec ops mt) [i ..< nat (n mt - 1)]))"
  using len pos inv
proof (induction "nat (n mt - 1) - i" arbitrary: i c)
  case 0
  then have "\<not> int i < n mt - 1" "[i ..< nat (n mt - 1)] = []" "take i c = c"
    by auto
  then show ?case
    by (subst elim_loop.simps) simp
next
  case (Suc k)
  then have lt: "int i < n mt - 1" "i < length c" "i < nat (n mt - 1)"
    by auto
  have prev: "i - 1 < length c" "c ! (i - 1) = c_spec ops mt (i - 1)"
    using Suc.prems lt by auto
  have row: "int i < n mt"
    using lt by simp
  note col = collides_row [OF wf \<open>0 < i\<close> row prev]
  note piv = pivot_row [OF wf \<open>0 < i\<close> row prev]
  note sup = super_index [OF wf lt(1)]
  have upt: "[i ..< nat (n mt - 1)] = i # [Suc i ..< nat (n mt - 1)]"
    using lt(3) by (simp add: upt_conv_Cons)
  show ?case
  proof (cases "zero_pivot ops mt i")
    case True
    then show ?thesis
      using lt(1) by (subst elim_loop.simps) (simp add: col collision_row [OF wf \<open>0 < i\<close> row] upt)
  next
    case False
    let ?c = "c[i := c_spec ops mt i]"
    have step: "elim_loop ops mt c (int i) = elim_loop ops mt ?c (int (Suc i))"
      using lt False
      by (subst elim_loop.simps)
        (simp add: col piv sup c_spec_pos [OF \<open>0 < i\<close>] int_succ del: of_nat_Suc)
    have inv': "\<forall>j<Suc i. j < length ?c \<longrightarrow> ?c ! j = c_spec ops mt j"
      using Suc.prems(3) by (auto simp: nth_list_update less_Suc_eq)
    have "elim_loop ops mt ?c (int (Suc i)) =
       (case List.find (zero_pivot ops mt) [Suc i ..< nat (n mt - 1)] of
          Some j \<Rightarrow> Inl (pivot_failure mt j)
        | None \<Rightarrow> Inr (take (Suc i) ?c @ map (c_spec ops mt) [Suc i ..< nat (n mt - 1)]))"
      using Suc.hyps(2) Suc.prems(1) inv' by (intro Suc.hyps(1)) auto
    then show ?thesis
      using False lt(2)
      by (simp add: step upt take_Suc_update split: option.split del: of_nat_Suc)
  qed
qed

lemma subst_loop_spec:
  assumes wf: "well_formed mt"
    and lr: "int (length r) = n mt"
    and c: "c = map (c_spec ops mt) [0 ..< nat (n mt - 1)]"
    and len: "length d = nat (n mt)"
    and pos: "0 < i"
    and inv: "\<forall>j<i. j < length d \<longrightarrow> d ! j = d_spec ops mt r j"
  shows "subst_loop ops mt r c d (int i) =
     Inr (take i d @ map (d_spec ops mt r) [i ..< nat (n mt)])"
  using len pos inv
proof (induction "nat (n mt) - i" arbitrary: i d)
  case 0
  then have "\<not> int i < n mt" "[i ..< nat (n mt)] = []" "take i d = d"
    by auto
  then show ?case
    by (subst subst_loop.simps) simp
next
  case (Suc k)
  then have lt: "int i < n mt" "i < length d" "i < nat (n mt)" "i < length r"
    using lr by auto
  have prevc: "i - 1 < length c" "c ! (i - 1) = c_spec ops mt (i - 1)"
    using Suc.prems lt by (auto simp: c)
  have prevd: "i - 1 < length d" "d ! (i - 1) = d_spec ops mt r (i - 1)"
    using Suc.prems lt by auto
  note piv = pivot_row [OF wf \<open>0 < i\<close> lt(1) prevc]
  note ind = row_indices(2) [OF wf \<open>0 < i\<close> lt(1)] prev_index [OF \<open>0 < i\<close> prevd(1)]
  let ?d = "d[i := d_spec ops mt r i]"
  have step: "subst_loop ops mt r c d (int i) = subst_loop ops mt r c ?d (int (Suc i))"
    using lt prevd(2)
    by (subst subst_loop.simps)
      (simp add: piv ind d_spec_pos [OF \<open>0 < i\<close>] int_succ del: of_nat_Suc)
  have inv': "\<forall>j<Suc i. j < length ?d \<longrightarrow> ?d ! j = d_spec ops mt r j"
    using Suc.prems(3) by (auto simp: nth_list_update less_Suc_eq)
  have "subst_loop ops mt r c ?d (int (Suc i)) =
     Inr (take (Suc i) ?d @ map (d_spec ops mt r) [Suc i ..< nat (n mt)])"
    using Suc.hyps(2) Suc.prems(1) inv' by (intro Suc.hyps(1)) auto
  then show ?case
    using lt(2,3) by (simp add: step upt_conv_Cons take_Suc_update del: of_nat_Suc)
qed

declare x_spec.simps [simp del]

lemma x_spec_step:
  "Suc i < nat (n mt) \<Longrightarrow>
   x_spec ops mt r i =
     fsub ops (d_spec ops mt r i) (fmul ops (c_spec ops mt i) (x_spec ops mt r (Suc i)))"
  by (subst x_spec.simps) simp

lemma x_spec_last:
  "\<not> Suc i < nat (n mt) \<Longrightarrow> x_spec ops mt r i = d_spec ops mt r i"
  by (subst x_spec.simps) simp

lemma drop_update_Cons:
  "i < length xs \<Longrightarrow> drop i (xs[i := v]) = v # drop (Suc i) xs"
  by (simp add: Cons_nth_drop_Suc [symmetric] drop_update_cancel)

lemma back_loop_spec:
  assumes c: "c = map (c_spec ops mt) [0 ..< nat (n mt - 1)]"
    and d: "d = map (d_spec ops mt r) [0 ..< nat (n mt)]"
    and len: "length x = nat (n mt)"
    and k: "k < nat (n mt)"
    and inv: "\<forall>j. k \<le> j \<and> j < nat (n mt) \<longrightarrow> x ! j = x_spec ops mt r j"
  shows "back_loop ops c d x (int k - 1) =
     Inr (map (x_spec ops mt r) [0 ..< k] @ drop k x)"
  using len k inv
proof (induction k arbitrary: x)
  case 0
  show ?case
    by (subst back_loop.simps) simp
next
  case (Suc k)
  have lt: "k < length d" "k < length c" "Suc k < length x" "k < length x"
    using Suc.prems(1,2) by (auto simp: c d)
  have rd: "d ! k = d_spec ops mt r k" "c ! k = c_spec ops mt k"
    "x ! Suc k = x_spec ops mt r (Suc k)"
    using Suc.prems lt by (auto simp: c d)
  let ?x = "x[k := x_spec ops mt r k]"
  have v: "fsub ops (d_spec ops mt r k) (fmul ops (c_spec ops mt k) (x_spec ops mt r (Suc k)))
      = x_spec ops mt r k"
    using x_spec_step [of k mt ops r] Suc.prems(2) by simp
  have e: "int (Suc k) - 1 = int k"
    by simp
  have step: "back_loop ops c d x (int (Suc k) - 1) = back_loop ops c d ?x (int k - 1)"
    unfolding e using lt
    by (subst back_loop.simps) (simp add: rd v int_succ del: of_nat_Suc)
  have inv': "\<forall>j. k \<le> j \<and> j < nat (n mt) \<longrightarrow> ?x ! j = x_spec ops mt r j"
  proof (intro allI impI)
    fix j
    assume j: "k \<le> j \<and> j < nat (n mt)"
    show "?x ! j = x_spec ops mt r j"
    proof (cases "j = k")
      case True
      then show ?thesis
        using lt(4) by simp
    next
      case False
      with j have "Suc k \<le> j \<and> j < nat (n mt)"
        by auto
      with Suc.prems(3) have "x ! j = x_spec ops mt r j"
        by blast
      with False show ?thesis
        by simp
    qed
  qed
  have "back_loop ops c d ?x (int k - 1) = Inr (map (x_spec ops mt r) [0 ..< k] @ drop k ?x)"
    using Suc.prems(1,2) inv' by (intro Suc.IH) auto
  then show ?case
    using lt(4) by (simp only: step) (simp add: drop_update_Cons)
qed

subsection \<open>The whole solver\<close>

text \<open>
  From dimension 2 on, \<open>TDMA\<close> is the function \<open>solve_spec\<close>; on a 1 x 1 matrix it
  never returns a vector.
\<close>

lemma find_snoc:
  "List.find P (xs @ [y]) =
     (case List.find P xs of Some x \<Rightarrow> Some x | None \<Rightarrow> if P y then Some y else None)"
  by (induction xs) auto

lemma take1_map:
  assumes "0 < N"
  shows "take 1 ((replicate N z)[0 := f 0]) @ map f [1 ..< N] = map f [0 ..< N]"
proof -
  have "[0 ..< N] = 0 # [1 ..< N]"
    using assms by (simp add: upt_conv_Cons)
  moreover have "take 1 ((replicate N z)[0 := f 0]) = [f 0]"
    using assms by (cases N) simp_all
  ultimately show ?thesis
    by simp
qed

lemma make_replicate: "0 \<le> k \<Longrightarrow> make ops k = Inr (replicate (nat k) (fzero ops))"
  by (simp add: make_def)

lemma first_row:
  assumes "well_formed mt"
  shows "index (m mt) 0 = (Inr (diag mt 0) :: 'e failure + 'a)"
  using assms by (simp add: index_def diag_def well_formed_def)

lemma first_super:
  assumes "well_formed mt" "2 \<le> n mt"
  shows "index (m mt) 1 = (Inr (superdiag mt 0) :: 'e failure + 'a)"
  using assms by (simp add: index_def superdiag_def well_formed_def)

lemma TDMA_refines:
  assumes wf: "well_formed mt" and n2: "2 \<le> n mt"
  shows "TDMA ops mt r = solve_spec ops mt r"
proof (cases "int (length r) = n mt")
  case False
  then show ?thesis
    by (simp add: TDMA_def solve_spec_def)
next
  case lr: True
  define N where "N = nat (n mt)"
  have N: "n mt = int N" "2 \<le> N"
    using n2 by (auto simp: N_def)
  show ?thesis
  proof (cases "feq ops (diag mt 0) (fzero ops)")
    case True
    then show ?thesis
      using lr n2 by (simp add: TDMA_def solve_spec_def make_replicate first_row [OF wf])
  next
    case nz: False
    let ?c0 = "(replicate (nat (n mt - 1)) (fzero ops))[0 := fdiv ops (superdiag mt 0) (diag mt 0)]"
    let ?cs = "map (c_spec ops mt) [0 ..< nat (n mt - 1)]"
    have c0: "elim_loop ops mt ?c0 (int 1) =
       (case List.find (zero_pivot ops mt) [1 ..< nat (n mt - 1)] of
          Some j \<Rightarrow> Inl (pivot_failure mt j)
        | None \<Rightarrow> Inr (take 1 ?c0 @ map (c_spec ops mt) [1 ..< nat (n mt - 1)]))"
      by (rule elim_loop_spec [OF wf]) (auto simp: nth_list_update)
    have tk: "take 1 ?c0 @ map (c_spec ops mt) [1 ..< nat (n mt - 1)] = ?cs"
      using n2 take1_map [of "nat (n mt - 1)" "fzero ops" "c_spec ops mt"] by simp
    have head: "TDMA ops mt r =
       and_then (elim_loop ops mt ?c0 1) (\<lambda>c.
       and_then (collides ops mt c (n mt - 1)) (\<lambda>eq.
         if eq then collision mt (n mt - 1)
         else
           and_then (make ops (n mt)) (\<lambda>d.
           and_then (ap2 (fdiv ops) (index r 0) (index (m mt) 0)) (\<lambda>v.
           and_then (store d 0 v) (\<lambda>d.
           and_then (subst_loop ops mt r c d 1) (\<lambda>d.
           and_then (make ops (n mt)) (\<lambda>x.
           and_then (index d (n mt - 1)) (\<lambda>v.
           and_then (store x (n mt - 1) v) (\<lambda>x.
           back_loop ops c d x (n mt - 2))))))))))"
      using lr nz n2
      by (simp add: TDMA_def make_replicate first_row [OF wf] first_super [OF wf n2] store_def)
    have upt: "[Suc 0 ..< nat (n mt)] = [Suc 0 ..< nat (n mt - 1)] @ [nat (n mt - 1)]"
    proof -
      have "nat (n mt) = Suc (nat (n mt - 1))"
        using n2 by simp
      then show ?thesis
        using n2 by (simp add: upt_Suc_append)
    qed
    show ?thesis
    proof (cases "List.find (zero_pivot ops mt) [1 ..< nat (n mt - 1)]")
      case (Some j)
      then show ?thesis
        using lr nz c0 by (simp add: head solve_spec_def upt find_snoc)
    next
      case None
      have el: "elim_loop ops mt ?c0 1 = Inr ?cs"
        using c0 None tk by simp
      have last: "0 < nat (n mt - 1)" "int (nat (n mt - 1)) < n mt" "nat (n mt - 1) - 1 < length ?cs"
        "?cs ! (nat (n mt - 1) - 1) = c_spec ops mt (nat (n mt - 1) - 1)"
        using n2 by auto
      have col: "collides ops mt ?cs (n mt - 1) = Inr (zero_pivot ops mt (nat (n mt - 1)))"
        using collides_row [OF wf last] n2 by simp
      show ?thesis
      proof (cases "zero_pivot ops mt (nat (n mt - 1))")
        case True
        have "collision mt (n mt - 1) = (Inl (pivot_failure mt (nat (n mt - 1))) :: 'a failure + 'a list)"
          using collision_row [OF wf last(1,2)] n2 by simp
        then show ?thesis
          using lr nz None True by (simp add: head el col solve_spec_def upt find_snoc)
      next
        case False
        let ?d0 = "(replicate (nat (n mt)) (fzero ops))[0 := fdiv ops (r ! 0) (diag mt 0)]"
        let ?ds = "map (d_spec ops mt r) [0 ..< nat (n mt)]"
        have "subst_loop ops mt r ?cs ?d0 (int 1) =
           Inr (take 1 ?d0 @ map (d_spec ops mt r) [1 ..< nat (n mt)])"
          by (rule subst_loop_spec [OF wf lr refl]) (auto simp: nth_list_update)
        moreover have "take 1 ?d0 @ map (d_spec ops mt r) [1 ..< nat (n mt)] = ?ds"
          using n2 take1_map [of "nat (n mt)" "fzero ops" "d_spec ops mt r"] by simp
        ultimately have sl: "subst_loop ops mt r ?cs ?d0 1 = Inr ?ds"
          by simp
        let ?x0 = "(replicate (nat (n mt)) (fzero ops))[nat (n mt - 1) := x_spec ops mt r (nat (n mt - 1))]"
        have "back_loop ops ?cs ?ds ?x0 (int (nat (n mt - 1)) - 1) =
           Inr (map (x_spec ops mt r) [0 ..< nat (n mt - 1)] @ drop (nat (n mt - 1)) ?x0)"
          using n2 by (intro back_loop_spec [OF refl refl]) (auto simp: nth_list_update)
        moreover have "drop (nat (n mt - 1)) ?x0 = [x_spec ops mt r (nat (n mt - 1))]"
          using n2 by (simp add: drop_update_Cons)
        moreover have "int (nat (n mt - 1)) - 1 = n mt - 2"
          using n2 by simp
        moreover have "[0 ..< nat (n mt)] = [0 ..< nat (n mt - 1)] @ [nat (n mt - 1)]"
        proof -
          have "nat (n mt) = Suc (nat (n mt - 1))"
            using n2 by simp
          then show ?thesis
            by (simp add: upt_Suc_append)
        qed
        ultimately have bl: "back_loop ops ?cs ?ds ?x0 (n mt - 2) = Inr (map (x_spec ops mt r) [0 ..< nat (n mt)])"
          by simp
        have r0: "index r 0 = (Inr (r ! 0) :: 'a failure + 'a)"
          using lr n2 by (simp add: index_def)
        have dl: "index ?ds (n mt - 1) = (Inr (x_spec ops mt r (nat (n mt - 1))) :: 'a failure + 'a)"
          using n2 by (simp add: index_def x_spec_last)
        show ?thesis
          using lr nz None False n2
          by (simp add: head el col solve_spec_def upt find_snoc make_replicate r0
              first_row [OF wf] store_def sl dl bl)
      qed
    qed
  qed
qed

lemma TDMA_1x1:
  assumes wf: "well_formed mt" and n1: "n mt = 1"
  shows "TDMA ops mt r =
     (if length r \<noteq> 1 then Inl (ErrTDMA (RhsLength 1))
      else if feq ops (diag mt 0) (fzero ops) then Inl (ErrTDMA ZeroM0)
      else Inl Panic)"
proof -
  have "index (m mt) 1 = (Inl Panic :: 'a failure + 'a)"
    using wf n1 by (simp add: index_def well_formed_def)
  then show ?thesis
    using n1 by (auto simp: TDMA_def make_def first_row [OF wf])
qed

lemma TDMA_success:
  assumes "well_formed mt" "TDMA ops mt r = Inr x"
  shows "2 \<le> n mt" and "int (length r) = n mt" and "\<not> feq ops (diag mt 0) (fzero ops)"
    and "List.find (zero_pivot ops mt) [1 ..< nat (n mt)] = None"
    and "x = map (x_spec ops mt r) [0 ..< nat (n mt)]"
proof -
  show n2: "2 \<le> n mt"
  proof (rule ccontr)
    assume "\<not> 2 \<le> n mt"
    with assms(1) have "n mt = 1"
      by (simp add: well_formed_def)
    from TDMA_1x1 [OF assms(1) this, of ops r] assms(2) show False
      by (simp split: if_splits)
  qed
  have s: "solve_spec ops mt r = Inr x"
    using TDMA_refines [OF assms(1) n2, of ops r] assms(2) by simp
  then show "int (length r) = n mt" "\<not> feq ops (diag mt 0) (fzero ops)"
    "List.find (zero_pivot ops mt) [1 ..< nat (n mt)] = None"
    "x = map (x_spec ops mt r) [0 ..< nat (n mt)]"
    by (auto simp: solve_spec_def split: if_splits option.splits)
qed

lemma TDMA_no_panic:
  assumes "well_formed mt" and "2 \<le> n mt"
  shows "TDMA ops mt r \<noteq> Inl Panic"
  by (simp add: TDMA_refines [OF assms] solve_spec_def pivot_failure_def split: option.split)

lemma find_upt_Some:
  "List.find P [a ..< b] = Some i \<longleftrightarrow>
     a \<le> i \<and> i < b \<and> P i \<and> (\<forall>j. a \<le> j \<and> j < i \<longrightarrow> \<not> P j)"
proof (induction "b - a" arbitrary: a)
  case 0
  then show ?case by auto
next
  case (Suc k)
  then have u: "[a ..< b] = a # [Suc a ..< b]" and k: "k = b - Suc a"
    by (auto simp: upt_conv_Cons)
  show ?case
  proof (cases "P a")
    case True
    then show ?thesis
      using Suc.hyps(2) by (auto simp: u dest: le_neq_implies_less)
  next
    case False
    have "(\<forall>j. a \<le> j \<and> j < i \<longrightarrow> \<not> P j) \<longleftrightarrow> (\<forall>j. Suc a \<le> j \<and> j < i \<longrightarrow> \<not> P j)"
      using False by (metis Suc_leI le_neq_implies_less Suc_leD)
    moreover have "P i \<Longrightarrow> a \<le> i \<longleftrightarrow> Suc a \<le> i"
      using False by (metis Suc_leI le_neq_implies_less Suc_leD)
    ultimately show ?thesis
      using False Suc.hyps(1) [OF k] by (auto simp: u)
  qed
qed

lemma find_upt_None:
  "List.find P [a ..< b] = None \<longleftrightarrow> (\<forall>i. a \<le> i \<and> i < b \<longrightarrow> \<not> P i)"
  by (auto simp: find_None_iff)

subsection \<open>Evaluation on concrete inputs\<close>

text \<open>
  Rules for running the model on numerals. The congruence rules make the simplifier
  evaluate the bound value before the body that uses it.
\<close>

lemma list_update_numeral:
  "(x # xs)[numeral k := y] = x # xs[pred_numeral k := y]"
  by (simp add: numeral_eq_Suc)

lemma replicate_numeral:
  "replicate (numeral k) x = x # replicate (pred_numeral k) x"
  by (simp add: numeral_eq_Suc)

lemma and_then_weak_cong: "x = y \<Longrightarrow> and_then x f = and_then y f"
  by simp

lemmas tdma_eval = TDMA_def make_def index_def store_def collides_def pivot_def collision_def
  elim_loop.simps subst_loop.simps back_loop.simps list_update_numeral replicate_numeral

lemmas f64_eval = f64_of_int_def round_f64_def floor_log2_def round_even_def bitlen.simps
  Let_def f64_sub_def f64_neg_def signed_def ieee_def

text \<open>
  Some values of the arithmetic: \<open>1/3\<close> is \<^verbatim>\<open>0x3FD5555555555555\<close>; \<open>0.1 + 0.2\<close> is
  \<^verbatim>\<open>0x3FD3333333333334\<close>, one unit above \<open>0.3\<close>; \<open>2 ^ 53 + 1\<close> is a tie and goes to the
  even neighbour \<open>2 ^ 53\<close>; the largest finite value doubled is infinite; half of the
  smallest positive value is zero.
\<close>

lemma f64_known_values:
  "f64_div (f64_of_int 1) (f64_of_int 3) = Finite False 6004799503160661 (- 54)"
  "f64_add (f64_div (f64_of_int 1) (f64_of_int 10)) (f64_div (f64_of_int 2) (f64_of_int 10))
     = Finite False 5404319552844596 (- 54)"
  "f64_div (f64_of_int 3) (f64_of_int 10) = Finite False 5404319552844595 (- 54)"
  "f64_of_int 9007199254740993 = Finite False 4503599627370496 1"
  "f64_add (Finite False 9007199254740991 971) (Finite False 9007199254740991 971)
     = Infinity False"
  "f64_div (Finite False 1 (- 1074)) (f64_of_int 2) = Finite False 0 (- 1074)"
  by (simp_all add: f64_eval cong: let_weak_cong)

subsection \<open>Construction: properties\<close>

lemma New_well_formed: "New d = Inr mt \<Longrightarrow> well_formed mt"
proof -
  assume a: "New d = Inr mt"
  then have l: "int (length d) mod 3 = 1"
    by (auto simp: New_def split: if_splits)
  from a l have mt: "mt = \<lparr> n = (int (length d) - 1) div 3 + 1, m = d \<rparr>"
    by (simp add: New_def)
  from l have "int (length d) = 3 * ((int (length d) - 1) div 3 + 1) - 2"
    by presburger
  moreover from l have "0 \<le> (int (length d) - 1) div 3"
    by presburger
  ultimately show ?thesis
    by (simp add: mt well_formed_def)
qed

text \<open>
  C5: for a coefficient sequence of length \<open>L\<close>, \<open>New\<close> succeeds exactly when \<open>L \<ge> 1\<close> and
  \<open>(L - 1) mod 3 = 0\<close>; on success the matrix holds \<open>n = (L - 1) / 3 + 1\<close> and the sequence
  itself, unchanged; otherwise the result is the error \<open>ErrInvalidTridiagonalMatrix\<close> with
  the length \<open>L\<close>, and no matrix.
\<close>

theorem New_shape_validation:
  "((\<exists>mt. New d = Inr mt) \<longleftrightarrow> 1 \<le> int (length d) \<and> (int (length d) - 1) mod 3 = 0)
   \<and> (1 \<le> int (length d) \<and> (int (length d) - 1) mod 3 = 0 \<longrightarrow>
        New d = Inr \<lparr> n = (int (length d) - 1) div 3 + 1, m = d \<rparr>)
   \<and> (\<not> (1 \<le> int (length d) \<and> (int (length d) - 1) mod 3 = 0) \<longrightarrow>
        New d = Inl (ErrInvalidTridiagonalMatrix (int (length d))))"
proof -
  have "int (length d) mod 3 = 1 \<longleftrightarrow> 1 \<le> int (length d) \<and> (int (length d) - 1) mod 3 = 0"
    by presburger
  then show ?thesis by (auto simp: New_def)
qed

theorem New_shape_validation_witness:
  "(1 \<le> int (length [2, 1, 1, 2 :: rat]) \<and> (int (length [2, 1, 1, 2 :: rat]) - 1) mod 3 = 0)
   \<and> New [2, 1, 1, 2 :: rat] = Inr \<lparr> n = 2, m = [2, 1, 1, 2] \<rparr>
   \<and> \<not> (1 \<le> int (length [2, 1 :: rat]) \<and> (int (length [2, 1 :: rat]) - 1) mod 3 = 0)
   \<and> New [2, 1 :: rat] = Inl (ErrInvalidTridiagonalMatrix 2)"
  using New_shape_validation [of "[2, 1, 1, 2 :: rat]"] New_shape_validation [of "[2, 1 :: rat]"]
  by simp

subsection \<open>The solver: properties\<close>

text \<open>
  C7: a right-hand side whose length is not \<open>n\<close> makes \<open>TDMA\<close> return the error
  \<open>ErrTDMA\<close> with the message about the length: whatever the coefficients and the
  arithmetic are, nothing of them is read, and no vector is returned.
\<close>

theorem TDMA_rhs_length_mismatch:
  "int (length r) \<noteq> n mt \<Longrightarrow> TDMA ops mt r = Inl (ErrTDMA (RhsLength (n mt)))"
  by (simp add: TDMA_def)

theorem TDMA_rhs_length_mismatch_witness:
  "int (length [f64_of_int 4, f64_of_int 8]) \<noteq> n \<lparr>n = 4, m = map f64_of_int [2,1, 1,2,1, 1,2,1, 1,2]\<rparr>
   \<and> TDMA ieee \<lparr>n = 4, m = map f64_of_int [2,1, 1,2,1, 1,2,1, 1,2]\<rparr> [f64_of_int 4, f64_of_int 8]
       = Inl (ErrTDMA (RhsLength 4))"
  using TDMA_rhs_length_mismatch
    [of "[f64_of_int 4, f64_of_int 8]" "\<lparr>n = 4, m = map f64_of_int [2,1, 1,2,1, 1,2,1, 1,2]\<rparr>" ieee]
  by simp

text \<open>
  C2: the run of \<open>TDMA\<close> on the 1 x 1 matrix \<open>[2]\<close>, which \<open>New\<close> accepts, and the
  right-hand side \<open>[4]\<close>: \<^verbatim>\<open>c\<close> has length 0 and \<^verbatim>\<open>m.m\<close> has length 1, so
  \<^verbatim>\<open>c[0] = m.m[1] / m.m[0]\<close> panics.
\<close>

theorem TDMA_panics_on_1x1:
  "New [f64_of_int 2] = Inr \<lparr>n = 1, m = [f64_of_int 2]\<rparr>
   \<and> TDMA ieee \<lparr>n = 1, m = [f64_of_int 2]\<rparr> [f64_of_int 4] = Inl Panic"
  by (simp add: New_def tdma_eval f64_eval cong: let_weak_cong and_then_weak_cong)

text \<open>
  C6: for a well-formed matrix and a right-hand side of length \<open>n\<close>: when the diagonal
  entry of row 0 equals zero, the result is the error about \<open>m[0]\<close>; otherwise, at
  the first row \<open>i\<close> in \<open>1..n-1\<close> whose diagonal entry equals (by the comparison of the
  arithmetic) the product of its sub-diagonal entry and \<open>c[i-1]\<close>, the result is the
  error that names \<open>m[3i]\<close>, \<open>m[3i-1]\<close>, \<open>c[i-1]\<close> and the value of \<open>m[3i]\<close>; when there
  is no such row, the result is no \<open>ErrTDMA\<close> error. The test is \<open>zero_pivot\<close>: the
  comparison of the entry with the product, not of their difference with zero.
\<close>

theorem TDMA_zero_pivot_detection:
  assumes "well_formed mt" and "int (length r) = n mt"
  shows "(feq ops (diag mt 0) (fzero ops) \<longrightarrow> TDMA ops mt r = Inl (ErrTDMA ZeroM0))
    \<and> (\<not> feq ops (diag mt 0) (fzero ops) \<longrightarrow>
         (\<forall>i. 1 \<le> i \<and> i < nat (n mt) \<and> zero_pivot ops mt i
               \<and> (\<forall>j. 1 \<le> j \<and> j < i \<longrightarrow> \<not> zero_pivot ops mt j) \<longrightarrow>
            TDMA ops mt r =
              Inl (ErrTDMA (PivotCollision (int (3 * i)) (int (3 * i) - 1) (int i - 1) (diag mt i)))))
    \<and> (\<not> feq ops (diag mt 0) (fzero ops)
         \<and> (\<forall>i. 1 \<le> i \<and> i < nat (n mt) \<longrightarrow> \<not> zero_pivot ops mt i) \<longrightarrow>
         (\<forall>e. TDMA ops mt r \<noteq> Inl (ErrTDMA e)))"
proof (cases "2 \<le> n mt")
  case True
  note eq = TDMA_refines [OF assms(1) True, of ops r]
  have a: "feq ops (diag mt 0) (fzero ops) \<longrightarrow> TDMA ops mt r = Inl (ErrTDMA ZeroM0)"
    using assms(2) by (simp add: eq solve_spec_def)
  have b: "TDMA ops mt r = Inl (pivot_failure mt i)"
    if "\<not> feq ops (diag mt 0) (fzero ops)" "1 \<le> i" "i < nat (n mt)" "zero_pivot ops mt i"
      "\<forall>j. 1 \<le> j \<and> j < i \<longrightarrow> \<not> zero_pivot ops mt j" for i
  proof -
    have "List.find (zero_pivot ops mt) [1 ..< nat (n mt)] = Some i"
      using that by (simp add: find_upt_Some)
    then show ?thesis
      using assms(2) that(1) by (simp add: eq solve_spec_def)
  qed
  have c: "TDMA ops mt r \<noteq> Inl (ErrTDMA e)"
    if "\<not> feq ops (diag mt 0) (fzero ops)"
      "\<forall>i. 1 \<le> i \<and> i < nat (n mt) \<longrightarrow> \<not> zero_pivot ops mt i" for e
  proof -
    have "List.find (zero_pivot ops mt) [1 ..< nat (n mt)] = None"
      using that(2) by (simp add: find_upt_None)
    then show ?thesis
      using assms(2) that(1) by (simp add: eq solve_spec_def)
  qed
  from a b c show ?thesis
    unfolding pivot_failure_def by blast
next
  case False
  with assms(1) have n1: "n mt = 1"
    by (simp add: well_formed_def)
  show ?thesis
    using assms(2) n1 by (simp add: TDMA_1x1 [OF assms(1) n1])
qed

theorem TDMA_zero_pivot_detection_witness:
  "TDMA ieee \<lparr>n = 2, m = map f64_of_int [0, 1, 1, 2]\<rparr> (map f64_of_int [1, 1])
     = Inl (ErrTDMA ZeroM0)
   \<and> \<not> zero_pivot ieee \<lparr>n = 3, m = map f64_of_int [1, 1, 1, 2, 1, 1, 1]\<rparr> 1
   \<and> zero_pivot ieee \<lparr>n = 3, m = map f64_of_int [1, 1, 1, 2, 1, 1, 1]\<rparr> 2
   \<and> TDMA ieee \<lparr>n = 3, m = map f64_of_int [1, 1, 1, 2, 1, 1, 1]\<rparr> (map f64_of_int [1, 1, 1])
     = Inl (ErrTDMA (PivotCollision 6 5 1 (f64_of_int 1)))
   \<and> \<not> zero_pivot ieee \<lparr>n = 2, m = map f64_of_int [2, 1, 1, 2]\<rparr> 1
   \<and> (\<forall>e. TDMA ieee \<lparr>n = 2, m = map f64_of_int [2, 1, 1, 2]\<rparr> (map f64_of_int [4, 5])
          \<noteq> Inl (ErrTDMA e))"
proof -
  let ?A = "\<lparr>n = 2, m = map f64_of_int [0, 1, 1, 2]\<rparr>"
  let ?B = "\<lparr>n = 3, m = map f64_of_int [1, 1, 1, 2, 1, 1, 1]\<rparr>"
  let ?C = "\<lparr>n = 2, m = map f64_of_int [2, 1, 1, 2]\<rparr>"
  note ev = zero_pivot_def diag_def subdiag_def superdiag_def f64_eval
  have wf: "well_formed ?A" "well_formed ?B" "well_formed ?C"
    by (simp_all add: well_formed_def)
  have len: "int (length (map f64_of_int [1, 1])) = n ?A"
    "int (length (map f64_of_int [1, 1, 1])) = n ?B"
    "int (length (map f64_of_int [4, 5])) = n ?C"
    by simp_all
  have a0: "feq ieee (diag ?A 0) (fzero ieee)"
    by (simp add: ev cong: let_weak_cong)
  have b0: "\<not> feq ieee (diag ?B 0) (fzero ieee)"
    by (simp add: ev cong: let_weak_cong)
  have b1: "\<not> zero_pivot ieee ?B 1"
    by (simp add: ev cong: let_weak_cong)
  have b2: "zero_pivot ieee ?B 2"
    by (simp add: ev cong: let_weak_cong)
  have c0: "\<not> feq ieee (diag ?C 0) (fzero ieee)"
    by (simp add: ev cong: let_weak_cong)
  have c1: "\<not> zero_pivot ieee ?C 1"
    by (simp add: ev cong: let_weak_cong)
  have bfirst: "\<forall>j. 1 \<le> j \<and> j < 2 \<longrightarrow> \<not> zero_pivot ieee ?B j"
  proof (intro allI impI)
    fix j :: nat
    assume "1 \<le> j \<and> j < 2"
    then have "j = 1"
      by simp
    with b1 show "\<not> zero_pivot ieee ?B j"
      by simp
  qed
  have cnone: "\<forall>i. 1 \<le> i \<and> i < nat (n ?C) \<longrightarrow> \<not> zero_pivot ieee ?C i"
  proof (intro allI impI)
    fix i :: nat
    assume "1 \<le> i \<and> i < nat (n ?C)"
    then have "i = 1"
      by simp
    with c1 show "\<not> zero_pivot ieee ?C i"
      by simp
  qed
  have ra: "TDMA ieee ?A (map f64_of_int [1, 1]) = Inl (ErrTDMA ZeroM0)"
    using TDMA_zero_pivot_detection [OF wf(1) len(1), of ieee] a0 by blast
  have "TDMA ieee ?B (map f64_of_int [1, 1, 1]) =
      Inl (ErrTDMA (PivotCollision (int (3 * 2)) (int (3 * 2) - 1) (int 2 - 1) (diag ?B 2)))"
    using TDMA_zero_pivot_detection
      [OF wf(2) len(2), of ieee, THEN conjunct2, THEN conjunct1, rule_format, of 2]
      b0 b2 bfirst by simp
  then have rb: "TDMA ieee ?B (map f64_of_int [1, 1, 1]) =
      Inl (ErrTDMA (PivotCollision 6 5 1 (f64_of_int 1)))"
    by (simp add: diag_def)
  have rc: "\<forall>e. TDMA ieee ?C (map f64_of_int [4, 5]) \<noteq> Inl (ErrTDMA e)"
    using TDMA_zero_pivot_detection [OF wf(3) len(3), of ieee] c0 cnone by blast
  show ?thesis
    using ra b1 b2 rb c1 rc by blast
qed

text \<open>
  C3: on a well-formed matrix with \<open>n \<ge> 2\<close>, \<open>TDMA\<close> returns a vector exactly when the
  right-hand side has length \<open>n\<close>, the diagonal entry of row 0 is not zero and no pivot
  test fires in the rows \<open>1..n-1\<close>, and the vector is then the one of the three-step
  algorithm of the specification: \<open>c_spec\<close>, \<open>d_spec\<close> and \<open>x_spec\<close> are its recurrences
  for \<open>c\<close>, \<open>d\<close> and \<open>x\<close>, with the operations of the arithmetic applied in the order
  written there. On a 1 x 1 matrix the same conditions give no vector: the recurrences
  give \<open>x[0] = r[0] / diag(0)\<close>, but the run ends in the panic of C2.
\<close>

theorem TDMA_three_step:
  assumes wf: "well_formed mt"
  shows "(2 \<le> n mt \<longrightarrow>
           (TDMA ops mt r = Inr x \<longleftrightarrow>
              int (length r) = n mt \<and> \<not> feq ops (diag mt 0) (fzero ops)
              \<and> (\<forall>i. 1 \<le> i \<and> i < nat (n mt) \<longrightarrow> \<not> zero_pivot ops mt i)
              \<and> x = map (x_spec ops mt r) [0 ..< nat (n mt)]))
       \<and> (n mt = 1 \<and> int (length r) = n mt \<and> \<not> feq ops (diag mt 0) (fzero ops) \<longrightarrow>
            TDMA ops mt r = Inl Panic)"
proof (intro conjI impI)
  assume n2: "2 \<le> n mt"
  have none: "List.find (zero_pivot ops mt) [1 ..< nat (n mt)] = None \<longleftrightarrow>
      (\<forall>i. 1 \<le> i \<and> i < nat (n mt) \<longrightarrow> \<not> zero_pivot ops mt i)"
    by (rule find_upt_None)
  show "TDMA ops mt r = Inr x \<longleftrightarrow>
      int (length r) = n mt \<and> \<not> feq ops (diag mt 0) (fzero ops)
      \<and> (\<forall>i. 1 \<le> i \<and> i < nat (n mt) \<longrightarrow> \<not> zero_pivot ops mt i)
      \<and> x = map (x_spec ops mt r) [0 ..< nat (n mt)]"
    unfolding TDMA_refines [OF wf n2] none [symmetric]
    by (auto simp: solve_spec_def split: option.splits)
next
  assume "n mt = 1 \<and> int (length r) = n mt \<and> \<not> feq ops (diag mt 0) (fzero ops)"
  then show "TDMA ops mt r = Inl Panic"
    using TDMA_1x1 [OF wf, of ops r] by simp
qed

text \<open>
  In float64: the second test vector of the package, on which both rows of the
  elimination are run, and the 1 x 1 matrix \<open>[2]\<close> with the right-hand side \<open>[4]\<close>, where
  the recurrences give \<open>[2]\<close>.
\<close>

theorem TDMA_three_step_witness:
  "well_formed \<lparr>n = 3, m = map f64_of_int [3,1, 1,4,2, 2,5]\<rparr>
   \<and> 2 \<le> n \<lparr>n = 3, m = map f64_of_int [3,1, 1,4,2, 2,5]\<rparr>
   \<and> int (length (map f64_of_int [5, 15, 19])) = n \<lparr>n = 3, m = map f64_of_int [3,1, 1,4,2, 2,5]\<rparr>
   \<and> \<not> feq ieee (diag \<lparr>n = 3, m = map f64_of_int [3,1, 1,4,2, 2,5]\<rparr> 0) (fzero ieee)
   \<and> \<not> zero_pivot ieee \<lparr>n = 3, m = map f64_of_int [3,1, 1,4,2, 2,5]\<rparr> 1
   \<and> \<not> zero_pivot ieee \<lparr>n = 3, m = map f64_of_int [3,1, 1,4,2, 2,5]\<rparr> 2
   \<and> TDMA ieee \<lparr>n = 3, m = map f64_of_int [3,1, 1,4,2, 2,5]\<rparr> (map f64_of_int [5, 15, 19])
       = Inr (map (x_spec ieee \<lparr>n = 3, m = map f64_of_int [3,1, 1,4,2, 2,5]\<rparr>
                     (map f64_of_int [5, 15, 19])) [0 ..< 3])
   \<and> TDMA ieee \<lparr>n = 3, m = map f64_of_int [3,1, 1,4,2, 2,5]\<rparr> (map f64_of_int [5, 15, 19])
       = Inr [Finite False 4503599627370496 (- 52), Finite False 4503599627370497 (- 51),
              Finite False 6755399441055743 (- 51)]
   \<and> well_formed \<lparr>n = 1, m = [f64_of_int 2]\<rparr>
   \<and> n \<lparr>n = 1, m = [f64_of_int 2]\<rparr> = 1
   \<and> int (length [f64_of_int 4]) = n \<lparr>n = 1, m = [f64_of_int 2]\<rparr>
   \<and> \<not> feq ieee (diag \<lparr>n = 1, m = [f64_of_int 2]\<rparr> 0) (fzero ieee)
   \<and> map (x_spec ieee \<lparr>n = 1, m = [f64_of_int 2]\<rparr> [f64_of_int 4]) [0 ..< 1] = [f64_of_int 2]
   \<and> TDMA ieee \<lparr>n = 1, m = [f64_of_int 2]\<rparr> [f64_of_int 4] = Inl Panic"
proof -
  let ?M = "\<lparr>n = 3, m = map f64_of_int [3,1, 1,4,2, 2,5]\<rparr>"
  let ?r = "map f64_of_int [5, 15, 19]"
  let ?A = "\<lparr>n = 1, m = [f64_of_int 2]\<rparr>"
  have wf: "well_formed ?M"
    by (simp add: well_formed_def)
  have n2: "2 \<le> n ?M"
    by simp
  have len: "int (length ?r) = n ?M"
    by simp
  have b0: "\<not> feq ieee (diag ?M 0) (fzero ieee)"
    by (simp add: diag_def f64_eval cong: let_weak_cong)
  have p1: "\<not> zero_pivot ieee ?M 1"
    by (simp add: zero_pivot_def diag_def subdiag_def superdiag_def ieee_def)
      (simp add: f64_eval cong: let_weak_cong)
  have "\<not> zero_pivot ieee ?M (Suc (Suc 0))"
    by (simp add: zero_pivot_def diag_def subdiag_def superdiag_def ieee_def)
      (simp add: f64_eval cong: let_weak_cong)
  moreover have "Suc (Suc 0) = 2"
    by simp
  ultimately have p2: "\<not> zero_pivot ieee ?M 2"
    by (simp only: not_False_eq_True)
  have piv: "\<forall>i. 1 \<le> i \<and> i < nat (n ?M) \<longrightarrow> \<not> zero_pivot ieee ?M i"
  proof (intro allI impI)
    fix i :: nat
    assume "1 \<le> i \<and> i < nat (n ?M)"
    then have "i = 1 \<or> i = 2"
      by auto
    then show "\<not> zero_pivot ieee ?M i"
      using p1 p2 by blast
  qed
  have three: "nat (n ?M) = 3"
    by simp
  have run: "TDMA ieee ?M ?r = Inr (map (x_spec ieee ?M ?r) [0 ..< 3])"
    using TDMA_three_step [OF wf, of ieee ?r "map (x_spec ieee ?M ?r) [0 ..< nat (n ?M)]",
        THEN conjunct1, rule_format, OF n2] len b0 piv
    unfolding three by blast
  have val: "TDMA ieee ?M ?r
       = Inr [Finite False 4503599627370496 (- 52), Finite False 4503599627370497 (- 51),
              Finite False 6755399441055743 (- 51)]"
    by (simp add: tdma_eval f64_eval cong: let_weak_cong and_then_weak_cong)
  have wfA: "well_formed ?A"
    by (simp add: well_formed_def)
  have nA: "n ?A = 1"
    by simp
  have lenA: "int (length [f64_of_int 4]) = n ?A"
    by simp
  have a0: "\<not> feq ieee (diag ?A 0) (fzero ieee)"
    by (simp add: diag_def f64_eval cong: let_weak_cong)
  have xA: "map (x_spec ieee ?A [f64_of_int 4]) [0 ..< 1] = [f64_of_int 2]"
    by (simp add: x_spec.simps diag_def ieee_def)
      (simp add: f64_eval cong: let_weak_cong)
  have runA: "TDMA ieee ?A [f64_of_int 4] = Inl Panic"
    using TDMA_three_step [OF wfA, of ieee "[f64_of_int 4]", THEN conjunct2] nA lenA a0
    by blast
  show ?thesis
    by (intro conjI wf n2 len b0 p1 p2 run val wfA nA lenA a0 xA runA)
qed

subsection \<open>A test vector of the package\<close>

lemma test_vector_1_close: "close_to (Finite False 9007199254740988 (- 53)) 1 (1 / 1000)"
   "close_to (Finite False 4503599627370498 (- 51)) 2 (1 / 1000)"
   "close_to (Finite False 6755399441055742 (- 51)) 3 (1 / 1000)"
   "close_to (Finite False 4503599627370497 (- 50)) 4 (1 / 1000)"
  by (simp_all add: close_to_def signed_def power_int_minus field_simps)

text \<open>
  C8: \<open>New\<close> accepts the coefficients \<open>2,1, 1,2,1, 1,2,1, 1,2\<close>, and \<open>TDMA\<close> on the
  right-hand side \<open>4, 8, 12, 11\<close> returns, in float64 arithmetic, four values that are
  within \<open>1/1000\<close> of 1, 2, 3 and 4.
\<close>

theorem TDMA_test_vector_1:
  "New (map f64_of_int [2,1, 1,2,1, 1,2,1, 1,2])
     = Inr \<lparr>n = 4, m = map f64_of_int [2,1, 1,2,1, 1,2,1, 1,2]\<rparr>
   \<and> TDMA ieee \<lparr>n = 4, m = map f64_of_int [2,1, 1,2,1, 1,2,1, 1,2]\<rparr>
         (map f64_of_int [4, 8, 12, 11])
     = Inr [Finite False 9007199254740988 (- 53), Finite False 4503599627370498 (- 51),
            Finite False 6755399441055742 (- 51), Finite False 4503599627370497 (- 50)]
   \<and> close_to (Finite False 9007199254740988 (- 53)) 1 (1 / 1000)
   \<and> close_to (Finite False 4503599627370498 (- 51)) 2 (1 / 1000)
   \<and> close_to (Finite False 6755399441055742 (- 51)) 3 (1 / 1000)
   \<and> close_to (Finite False 4503599627370497 (- 50)) 4 (1 / 1000)"
proof -
  have "New (map f64_of_int [2,1, 1,2,1, 1,2,1, 1,2])
     = Inr \<lparr>n = 4, m = map f64_of_int [2,1, 1,2,1, 1,2,1, 1,2]\<rparr>"
    by (simp add: New_def)
  moreover have "TDMA ieee \<lparr>n = 4, m = map f64_of_int [2,1, 1,2,1, 1,2,1, 1,2]\<rparr>
         (map f64_of_int [4, 8, 12, 11])
     = Inr [Finite False 9007199254740988 (- 53), Finite False 4503599627370498 (- 51),
            Finite False 6755399441055742 (- 51), Finite False 4503599627370497 (- 50)]"
    by (simp add: tdma_eval f64_eval cong: let_weak_cong and_then_weak_cong)
  ultimately show ?thesis
    using test_vector_1_close by blast
qed

subsection \<open>The round trip through the dense product\<close>










subsection \<open>The determinant: properties\<close>

lemma prev_super:
  assumes "well_formed mt" "0 < i" "int i < n mt"
  shows "index (m mt) (int i * 3 - 2) = (Inr (superdiag mt (i - 1)) :: 'e failure + 'a)"
proof -
  from assms have l: "int i * 3 - 2 < int (length (m mt))" "0 \<le> int i * 3 - 2"
    by (auto simp: well_formed_def)
  have e: "nat (int i * 3 - 2) = 3 * (i - 1) + 1"
    using assms(2) by auto
  show ?thesis
    using l by (simp add: index_def superdiag_def e)
qed

lemma detF_spec:
  "well_formed mt \<Longrightarrow> int k < n mt \<Longrightarrow>
   detF ops (m mt) (int k) = Some (Inr (det_spec ops mt k))"
proof (induction ops mt k rule: det_spec.induct)
  case (1 ops mt)
  then show ?case
    by (subst detF.simps) (simp add: first_row)
next
  case (2 ops mt)
  then have wf: "well_formed mt" and n2: "2 \<le> n mt"
    by simp_all
  have "index (m mt) 3 = (Inr (diag mt 1) :: 'a failure + 'a)"
    "index (m mt) 2 = (Inr (subdiag mt 1) :: 'a failure + 'a)"
    using row_indices [OF wf, of 1] n2 by simp_all
  then show ?case
    by (subst detF.simps) (simp add: first_row [OF wf] first_super [OF wf n2])
next
  case (3 ops mt k)
  let ?k = "Suc (Suc k)"
  note wf = "3.prems"(1) and lt = "3.prems"(2)
  have a: "detF ops (m mt) (int ?k - 1) = Some (Inr (det_spec ops mt (Suc k)))"
    using 3 by simp
  have b: "detF ops (m mt) (int ?k - 2) = Some (Inr (det_spec ops mt k))"
    using 3 by simp
  have ne: "int ?k \<noteq> 0" "int ?k \<noteq> 1"
    by simp_all
  have sup: "index (m mt) (int ?k * 3 - 2) = (Inr (superdiag mt (Suc k)) :: 'a failure + 'a)"
    using prev_super [OF wf _ lt] by simp
  have row: "index (m mt) (int ?k * 3) = (Inr (diag mt ?k) :: 'a failure + 'a)"
    "index (m mt) (int ?k * 3 - 1) = (Inr (subdiag mt ?k) :: 'a failure + 'a)"
    using row_indices [OF wf _ lt] by simp_all
  show ?case
    by (subst detF.simps)
      (simp only: ne if_False a b Option.bind.simps sum.case ap2_Inr row sup det_spec.simps)
qed

text \<open>
  C4: on a well-formed matrix \<open>Determinant\<close> returns a value, which is the one of the
  recurrence \<open>det_spec\<close> at the last row \<open>n - 1\<close>: \<open>det(0) = diag(0)\<close>,
  \<open>det(1) = diag(1) * diag(0) - subdiag(1) * superdiag(0)\<close> and
  \<open>det(k) = diag(k) * det(k-1) - subdiag(k) * superdiag(k-1) * det(k-2)\<close>, where
  \<open>diag(k)\<close> is \<open>m[3k]\<close>, \<open>subdiag(k)\<close> is \<open>m[3k-1]\<close> and \<open>superdiag(k-1)\<close> is \<open>m[3k-2]\<close>.
\<close>

theorem Determinant_recurrence:
  assumes "well_formed mt"
  shows "Determinant ops mt = Some (Inr (det_spec ops mt (nat (n mt - 1))))
    \<and> (\<forall>k. diag mt k = m mt ! (3 * k))
    \<and> (\<forall>k. 0 < k \<longrightarrow> subdiag mt k = m mt ! (3 * k - 1) \<and> superdiag mt (k - 1) = m mt ! (3 * k - 2))"
proof -
  have "int (nat (n mt - 1)) < n mt" "int (nat (n mt - 1)) = n mt - 1"
    using assms by (simp_all add: well_formed_def)
  with detF_spec [OF assms, of "nat (n mt - 1)" ops]
  have "Determinant ops mt = Some (Inr (det_spec ops mt (nat (n mt - 1))))"
    by (simp add: Determinant_def)
  moreover have "3 * (k - 1) + 1 = 3 * k - 2" if "0 < k" for k :: nat
    using that by simp
  ultimately show ?thesis
    by (simp add: diag_def subdiag_def superdiag_def)
qed

theorem Determinant_recurrence_witness:
  "well_formed \<lparr>n = 4, m = [2,1, 1,2,1, 1,2,1, 1,2 :: rat]\<rparr>
   \<and> Determinant exact \<lparr>n = 4, m = [2,1, 1,2,1, 1,2,1, 1,2 :: rat]\<rparr>
       = Some (Inr (det_spec exact \<lparr>n = 4, m = [2,1, 1,2,1, 1,2,1, 1,2 :: rat]\<rparr> 3))
   \<and> det_spec exact \<lparr>n = 4, m = [2,1, 1,2,1, 1,2,1, 1,2 :: rat]\<rparr> 3 = 5"
proof -
  let ?M = "\<lparr>n = 4, m = [2,1, 1,2,1, 1,2,1, 1,2 :: rat]\<rparr>"
  have wf: "well_formed ?M"
    by (simp add: well_formed_def)
  have run: "Determinant exact ?M = Some (Inr (det_spec exact ?M 3))"
    using Determinant_recurrence [OF wf, of exact, THEN conjunct1] by (simp del: det_spec.simps)
  have "det_spec exact ?M (Suc (Suc (Suc 0))) = 5"
    by (simp add: diag_def subdiag_def superdiag_def exact_def)
  moreover have "Suc (Suc (Suc 0)) = 3"
    by simp
  ultimately have val: "det_spec exact ?M 3 = 5"
    by (simp only:)
  show ?thesis
    by (intro conjI wf run val)
qed

text \<open>
  C10: on a coefficient sequence of length \<open>3n - 2\<close> with \<open>n \<ge> 1\<close>, the call of
  \<open>detF\<close> at every index from 0 to \<open>n - 1\<close> returns (with a value, not a panic): the
  index of each recursive call is smaller, and 0 and 1 end the recursion. So
  \<open>Determinant\<close> returns on every well-formed matrix.
\<close>

theorem detF_terminates:
  assumes "well_formed mt"
  shows "(\<forall>k. 0 \<le> k \<and> k < n mt \<longrightarrow> (\<exists>v. detF ops (m mt) k = Some (Inr v)))
    \<and> (\<exists>v. Determinant ops mt = Some (Inr v))"
proof -
  have "\<exists>v. detF ops (m mt) k = Some (Inr v)" if "0 \<le> k" "k < n mt" for k
    using detF_spec [OF assms, of "nat k" ops] that by simp
  moreover have "0 \<le> n mt - 1" "n mt - 1 < n mt"
    using assms by (simp_all add: well_formed_def)
  ultimately show ?thesis
    unfolding Determinant_def by blast
qed

theorem detF_terminates_witness:
  "well_formed \<lparr>n = 2, m = map f64_of_int [2, 1, 1, 2]\<rparr>
   \<and> (\<exists>v. detF ieee (map f64_of_int [2, 1, 1, 2]) 1 = Some (Inr v))
   \<and> (\<exists>v. Determinant ieee \<lparr>n = 2, m = map f64_of_int [2, 1, 1, 2]\<rparr> = Some (Inr v))"
proof -
  have wf: "well_formed \<lparr>n = 2, m = map f64_of_int [2, 1, 1, 2]\<rparr>"
    by (simp add: well_formed_def)
  show ?thesis
    using wf detF_terminates [OF wf, of ieee, THEN conjunct1, rule_format, of 1]
      detF_terminates [OF wf, of ieee, THEN conjunct2]
    by simp
qed

lemma detF_negative:
  "k < 0 \<Longrightarrow> detF ops elem k = None"
proof (induction arbitrary: k rule: detF.fixp_induct)
  case 1
  show ?case
    by (auto simp: ccpo.admissible_def fun_lub_def flat_lub_def)
next
  case 2
  then show ?case by simp
next
  case (3 f)
  then show ?case by simp
qed

subsection \<open>The store: properties\<close>

text \<open>
  An expression reads the store and leaves it as it is; each loop writes to one slice
  only; so the run in the store and the run on values go through the same steps, and
  the store at the end is the one at the start with the new arrays appended.
\<close>

declare elim_loop_h.simps [simp del] subst_loop_h.simps [simp del] back_loop_h.simps [simp del]

lemma op2_pure:
  "X h = (x, h) \<Longrightarrow> Y h = (y, h) \<Longrightarrow> op2 f X Y h = (ap2 f x y, h)"
  by (cases x; cases y) (simp_all add: op2_def seq_def ret_def ap2_def)

lemma rd_pure: "rd a i h = (index (h ! a) i, h)"
  by (simp add: rd_def)

lemma pivot_h_pure:
  "m mt = h ! am \<Longrightarrow> pivot_h ops am ac i h = (pivot ops mt (h ! ac) i, h)"
  by (simp add: pivot_h_def pivot_def op2_pure rd_pure)

lemma collides_h_pure:
  "m mt = h ! am \<Longrightarrow> collides_h ops am ac i h = (collides ops mt (h ! ac) i, h)"
  by (simp add: collides_h_def collides_def op2_pure rd_pure)

lemma collision_h_pure:
  "m mt = h ! am \<Longrightarrow> \<exists>e. collision_h am i h = (Inl e, h) \<and> collision mt i = Inl e"
  by (cases "index (h ! am) (i * 3) :: 'a failure + 'a")
    (simp_all add: collision_h_def collision_def seq_def rd_def fail_def)

lemma elim_loop_sim:
  assumes "m mt = h ! am" and "n mt = nn" and "ac \<noteq> am" and "ac < length h"
  shows "\<exists>cs. snd (elim_loop_h ops nn am ac i h) = h[ac := cs]
     \<and> (case elim_loop ops mt (h ! ac) i of
           Inl e \<Rightarrow> fst (elim_loop_h ops nn am ac i h) = Inl e
         | Inr c' \<Rightarrow> fst (elim_loop_h ops nn am ac i h) = Inr () \<and> cs = c')"
  using assms
proof (induction "nat (nn - 1 - i)" arbitrary: i h)
  case 0
  then have "elim_loop_h ops nn am ac i h = (Inr (), h)" "elim_loop ops mt (h ! ac) i = Inr (h ! ac)"
    by (subst elim_loop_h.simps, simp add: ret_def, subst elim_loop.simps, simp)
  then show ?case
    by (auto intro: exI [of _ "h ! ac"])
next
  case (Suc k)
  then have lt: "i < nn - 1" "i < n mt - 1"
    by simp_all
  note col = collides_h_pure [OF Suc.prems(1), of ops ac i]
  let ?c = "h ! ac"
  let ?q = "ap2 (fdiv ops) (index (m mt) (i * 3 + 1)) (pivot ops mt ?c i)"
  have hstep: "elim_loop_h ops nn am ac i h =
      seq (collides_h ops am ac i) (\<lambda>eq.
          if eq then collision_h am i
          else
            seq (op2 (fdiv ops) (rd am (i * 3 + 1)) (pivot_h ops am ac i)) (\<lambda>v.
            seq (wr ac i v) (\<lambda>_ h'.
            elim_loop_h ops nn am ac (i + 1) h'))) h"
    using lt(1) by (subst elim_loop_h.simps) simp
  have pstep: "elim_loop ops mt ?c i =
      and_then (collides ops mt ?c i) (\<lambda>eq.
          if eq then collision mt i
          else
            and_then ?q (\<lambda>v.
            and_then (store ?c i v) (\<lambda>c'.
            elim_loop ops mt c' (i + 1))))"
    using lt(2) by (subst elim_loop.simps) simp
  have same: "h[ac := ?c] = h"
    by simp
  show ?case
  proof (cases "collides ops mt ?c i")
    case (Inl e)
    then show ?thesis
      unfolding hstep pstep using col by (auto simp: seq_def intro: exI [of _ ?c])
  next
    case (Inr eq)
    show ?thesis
    proof (cases eq)
      case True
      obtain e where e: "collision_h am i h = (Inl e :: 'a failure + unit, h)"
        "collision mt i = (Inl e :: 'a failure + 'a list)"
        using collision_h_pure [OF Suc.prems(1), of i] by blast
      show ?thesis
        unfolding hstep pstep using col Inr True e by (auto simp: seq_def intro: exI [of _ ?c])
    next
      case False
      have q: "op2 (fdiv ops) (rd am (i * 3 + 1)) (pivot_h ops am ac i) h = (?q, h)"
        using Suc.prems(1) by (simp add: op2_pure rd_pure pivot_h_pure)
      show ?thesis
      proof (cases ?q)
        case (Inl e)
        then show ?thesis
          unfolding hstep pstep using col Inr False q by (auto simp: seq_def intro: exI [of _ ?c])
      next
        case v: (Inr v)
        show ?thesis
        proof (cases "store ?c i v :: 'a failure + 'a list")
          case (Inl e)
          then show ?thesis
            unfolding hstep pstep using col Inr False q v
            by (auto simp: seq_def wr_def intro: exI [of _ ?c])
        next
          case c': (Inr c')
          let ?h = "h[ac := c']"
          have run: "elim_loop_h ops nn am ac i h = elim_loop_h ops nn am ac (i + 1) ?h"
            unfolding hstep using col Inr False q v c' by (simp add: seq_def wr_def)
          have pure: "elim_loop ops mt ?c i = elim_loop ops mt c' (i + 1)"
            unfolding pstep using Inr False v c' by simp
          have "\<exists>cs. snd (elim_loop_h ops nn am ac (i + 1) ?h) = ?h[ac := cs]
             \<and> (case elim_loop ops mt (?h ! ac) (i + 1) of
                   Inl e \<Rightarrow> fst (elim_loop_h ops nn am ac (i + 1) ?h) = Inl e
                 | Inr c'' \<Rightarrow> fst (elim_loop_h ops nn am ac (i + 1) ?h) = Inr () \<and> cs = c'')"
            using Suc.hyps(2) Suc.prems by (intro Suc.hyps(1)) auto
          then show ?thesis
            unfolding run pure using Suc.prems(4) by simp
        qed
      qed
    qed
  qed
qed

lemma subst_loop_sim:
  assumes "m mt = h ! am" and "n mt = nn" and "r = h ! ar" and "c = h ! ac"
    and "ad \<noteq> am" and "ad \<noteq> ar" and "ad \<noteq> ac" and "ad < length h"
  shows "\<exists>ds. snd (subst_loop_h ops nn am ar ac ad i h) = h[ad := ds]
     \<and> (case subst_loop ops mt r c (h ! ad) i of
           Inl e \<Rightarrow> fst (subst_loop_h ops nn am ar ac ad i h) = Inl e
         | Inr d' \<Rightarrow> fst (subst_loop_h ops nn am ar ac ad i h) = Inr () \<and> ds = d')"
  using assms
proof (induction "nat (nn - i)" arbitrary: i h)
  case 0
  then have "subst_loop_h ops nn am ar ac ad i h = (Inr (), h)"
    "subst_loop ops mt r c (h ! ad) i = Inr (h ! ad)"
    by (subst subst_loop_h.simps, simp add: ret_def, subst subst_loop.simps, simp)
  then show ?case
    by (auto intro: exI [of _ "h ! ad"])
next
  case (Suc k)
  then have lt: "i < nn" "i < n mt"
    by simp_all
  let ?d = "h ! ad"
  let ?q = "ap2 (fdiv ops)
             (ap2 (fsub ops) (index r i)
                (ap2 (fmul ops) (index (m mt) (i * 3 - 1)) (index ?d (i - 1))))
             (pivot ops mt c i)"
  have hstep: "subst_loop_h ops nn am ar ac ad i h =
      seq (op2 (fdiv ops)
               (op2 (fsub ops) (rd ar i) (op2 (fmul ops) (rd am (i * 3 - 1)) (rd ad (i - 1))))
               (pivot_h ops am ac i)) (\<lambda>v.
        seq (wr ad i v) (\<lambda>_ h'.
        subst_loop_h ops nn am ar ac ad (i + 1) h')) h"
    using lt(1) by (subst subst_loop_h.simps) simp
  have pstep: "subst_loop ops mt r c ?d i =
      and_then ?q (\<lambda>v.
        and_then (store ?d i v) (\<lambda>d'.
        subst_loop ops mt r c d' (i + 1)))"
    using lt(2) by (subst subst_loop.simps) simp
  have q: "op2 (fdiv ops)
               (op2 (fsub ops) (rd ar i) (op2 (fmul ops) (rd am (i * 3 - 1)) (rd ad (i - 1))))
               (pivot_h ops am ac i) h = (?q, h)"
    using Suc.prems(1,3,4) by (simp add: op2_pure rd_pure pivot_h_pure)
  show ?case
  proof (cases ?q)
    case (Inl e)
    then show ?thesis
      unfolding hstep pstep using q by (auto simp: seq_def intro: exI [of _ ?d])
  next
    case v: (Inr v)
    show ?thesis
    proof (cases "store ?d i v :: 'a failure + 'a list")
      case (Inl e)
      then show ?thesis
        unfolding hstep pstep using q v by (auto simp: seq_def wr_def intro: exI [of _ ?d])
    next
      case d': (Inr d')
      let ?h = "h[ad := d']"
      have run: "subst_loop_h ops nn am ar ac ad i h = subst_loop_h ops nn am ar ac ad (i + 1) ?h"
        unfolding hstep using q v d' by (simp add: seq_def wr_def)
      have pure: "subst_loop ops mt r c ?d i = subst_loop ops mt r c d' (i + 1)"
        unfolding pstep using v d' by simp
      have "\<exists>ds. snd (subst_loop_h ops nn am ar ac ad (i + 1) ?h) = ?h[ad := ds]
         \<and> (case subst_loop ops mt r c (?h ! ad) (i + 1) of
               Inl e \<Rightarrow> fst (subst_loop_h ops nn am ar ac ad (i + 1) ?h) = Inl e
             | Inr d'' \<Rightarrow> fst (subst_loop_h ops nn am ar ac ad (i + 1) ?h) = Inr () \<and> ds = d'')"
        using Suc.hyps(2) Suc.prems by (intro Suc.hyps(1)) auto
      then show ?thesis
        unfolding run pure using Suc.prems(8) by simp
    qed
  qed
qed

lemma back_loop_sim:
  assumes "c = h ! ac" and "d = h ! ad" and "ax \<noteq> ac" and "ax \<noteq> ad" and "ax < length h"
  shows "\<exists>xs. snd (back_loop_h ops ac ad ax i h) = h[ax := xs]
     \<and> (case back_loop ops c d (h ! ax) i of
           Inl e \<Rightarrow> fst (back_loop_h ops ac ad ax i h) = Inl e
         | Inr x' \<Rightarrow> fst (back_loop_h ops ac ad ax i h) = Inr () \<and> xs = x')"
  using assms
proof (induction "nat (i + 1)" arbitrary: i h)
  case 0
  then have "back_loop_h ops ac ad ax i h = (Inr (), h)"
    "back_loop ops c d (h ! ax) i = Inr (h ! ax)"
    by (subst back_loop_h.simps, simp add: ret_def, subst back_loop.simps, simp)
  then show ?case
    by (auto intro: exI [of _ "h ! ax"])
next
  case (Suc k)
  then have lt: "0 \<le> i"
    by simp
  let ?x = "h ! ax"
  let ?q = "ap2 (fsub ops) (index d i) (ap2 (fmul ops) (index c i) (index ?x (i + 1)))
    :: 'a failure + 'a"
  have hstep: "back_loop_h ops ac ad ax i h =
      seq (op2 (fsub ops) (rd ad i) (op2 (fmul ops) (rd ac i) (rd ax (i + 1)))) (\<lambda>v.
        seq (wr ax i v) (\<lambda>_ h'.
        back_loop_h ops ac ad ax (i - 1) h')) h"
    using lt by (subst back_loop_h.simps) simp
  have pstep: "back_loop ops c d ?x i =
      and_then ?q (\<lambda>v.
        and_then (store ?x i v) (\<lambda>x'.
        back_loop ops c d x' (i - 1)))"
    using lt by (subst back_loop.simps) simp
  have q: "op2 (fsub ops) (rd ad i) (op2 (fmul ops) (rd ac i) (rd ax (i + 1))) h = (?q, h)"
    using Suc.prems(1,2) by (simp add: op2_pure rd_pure)
  show ?case
  proof (cases ?q)
    case (Inl e)
    then show ?thesis
      unfolding hstep pstep using q by (auto simp: seq_def intro: exI [of _ ?x])
  next
    case v: (Inr v)
    show ?thesis
    proof (cases "store ?x i v :: 'a failure + 'a list")
      case (Inl e)
      then show ?thesis
        unfolding hstep pstep using q v by (auto simp: seq_def wr_def intro: exI [of _ ?x])
    next
      case x': (Inr x')
      let ?h = "h[ax := x']"
      have run: "back_loop_h ops ac ad ax i h = back_loop_h ops ac ad ax (i - 1) ?h"
        unfolding hstep using q v x' by (simp add: seq_def wr_def)
      have pure: "back_loop ops c d ?x i = back_loop ops c d x' (i - 1)"
        unfolding pstep using v x' by simp
      have "\<exists>xs. snd (back_loop_h ops ac ad ax (i - 1) ?h) = ?h[ax := xs]
         \<and> (case back_loop ops c d (?h ! ax) (i - 1) of
               Inl e \<Rightarrow> fst (back_loop_h ops ac ad ax (i - 1) ?h) = Inl e
             | Inr x'' \<Rightarrow> fst (back_loop_h ops ac ad ax (i - 1) ?h) = Inr () \<and> xs = x'')"
        using Suc.hyps(2) Suc.prems by (intro Suc.hyps(1)) auto
      then show ?thesis
        unfolding run pure using Suc.prems(5) by simp
    qed
  qed
qed

lemma TDMA_phases:
  "TDMA ops mt r =
     (if int (length r) \<noteq> n mt then Inl (ErrTDMA (RhsLength (n mt)))
      else
        and_then (make ops (n mt - 1)) (\<lambda>c.
        and_then (ap2 (feq ops) (index (m mt) 0) (Inr (fzero ops))) (\<lambda>z.
          if z then Inl (ErrTDMA ZeroM0)
          else
            and_then (ap2 (fdiv ops) (index (m mt) 1) (index (m mt) 0)) (\<lambda>v.
            and_then (store c 0 v) (\<lambda>c.
            and_then (elim_loop ops mt c 1) (\<lambda>c.
            and_then (collides ops mt c (n mt - 1)) (\<lambda>eq.
              if eq then collision mt (n mt - 1) else subst_phase ops mt r c)))))))"
  unfolding TDMA_def subst_phase_def back_phase_def by (rule refl)

lemma TDMA_h_phases:
  "TDMA_h ops nn am ar =
     seq (len ar) (\<lambda>l.
       if l \<noteq> nn then fail (ErrTDMA (RhsLength nn))
       else
         seq (new ops (nn - 1)) (\<lambda>ac.
         seq (op2 (feq ops) (rd am 0) (ret (fzero ops))) (\<lambda>z.
           if z then fail (ErrTDMA ZeroM0)
           else
             seq (op2 (fdiv ops) (rd am 1) (rd am 0)) (\<lambda>v.
             seq (wr ac 0 v) (\<lambda>_.
             seq (elim_loop_h ops nn am ac 1) (\<lambda>_.
             seq (collides_h ops am ac (nn - 1)) (\<lambda>eq.
               if eq then collision_h am (nn - 1) else subst_phase_h ops nn am ar ac)))))))"
  unfolding TDMA_h_def subst_phase_h_def back_phase_h_def by (rule refl)

lemma wr_fresh:
  "wr (length h) i v (h @ xs # ys) =
     (case store xs i v of Inl e \<Rightarrow> (Inl e, h @ xs # ys) | Inr zs \<Rightarrow> (Inr (), h @ zs # ys))"
  by (simp add: wr_def split: sum.split)

lemma back_phase_sim:
  assumes "n mt = nn" and "c = h ! ac" and "d = h ! ad" and "ac < length h" and "ad < length h"
  shows "\<exists>ext. snd (back_phase_h ops nn ac ad h) = h @ ext
     \<and> (case back_phase ops mt c d of
           Inl e \<Rightarrow> fst (back_phase_h ops nn ac ad h) = Inl e
         | Inr x \<Rightarrow> \<exists>ax. fst (back_phase_h ops nn ac ad h) = Inr ax
                       \<and> length h \<le> ax \<and> ax < length (h @ ext) \<and> (h @ ext) ! ax = x)"
proof (cases "make ops nn :: 'a failure + 'a list")
  case (Inl e)
  then show ?thesis
    using assms(1) by (auto simp: back_phase_h_def back_phase_def seq_def new_def intro: exI [of _ "[]"])
next
  case x0: (Inr x0)
  let ?ax = "length h"
  let ?h1 = "h @ [x0]"
  have n1: "new ops nn h = (Inr ?ax, ?h1)"
    using x0 by (simp add: new_def)
  have r1: "rd ad (nn - 1) ?h1 = (index d (nn - 1), ?h1)"
    using assms(3,5) by (simp add: rd_def nth_append)
  show ?thesis
  proof (cases "index d (nn - 1) :: 'a failure + 'a")
    case (Inl e)
    then show ?thesis
      using assms(1) x0 n1 r1
      by (auto simp: back_phase_h_def back_phase_def seq_def intro: exI [of _ "[x0]"])
  next
    case v: (Inr v)
    show ?thesis
    proof (cases "store x0 (nn - 1) v :: 'a failure + 'a list")
      case (Inl e)
      then show ?thesis
        using assms(1) x0 n1 r1 v wr_fresh [of h "nn - 1" v x0 "[]"]
        by (auto simp: back_phase_h_def back_phase_def seq_def intro: exI [of _ "[x0]"])
    next
      case x1: (Inr x1)
      let ?h2 = "h @ [x1]"
      have w: "wr ?ax (nn - 1) v ?h1 = (Inr (), ?h2)"
        using x1 wr_fresh [of h "nn - 1" v x0 "[]"] by simp
      have run: "back_phase_h ops nn ac ad h =
          seq (back_loop_h ops ac ad ?ax (nn - 2)) (\<lambda>_. ret ?ax) ?h2"
        using n1 r1 v w by (simp add: back_phase_h_def seq_def)
      have pure: "back_phase ops mt c d = back_loop ops c d x1 (nn - 2)"
        using assms(1) x0 v x1 by (simp add: back_phase_def)
      obtain xs where xs: "snd (back_loop_h ops ac ad ?ax (nn - 2) ?h2) = ?h2[?ax := xs]"
        "case back_loop ops c d (?h2 ! ?ax) (nn - 2) of
           Inl e \<Rightarrow> fst (back_loop_h ops ac ad ?ax (nn - 2) ?h2) = Inl e
         | Inr x' \<Rightarrow> fst (back_loop_h ops ac ad ?ax (nn - 2) ?h2) = Inr () \<and> xs = x'"
        using back_loop_sim [of c ?h2 ac d ad ?ax ops "nn - 2"] assms(2-5)
        by (auto simp: nth_append)
      have upd: "?h2[?ax := xs] = h @ [xs]"
        by simp
      show ?thesis
      proof (cases "back_loop ops c d x1 (nn - 2)")
        case (Inl e)
        then show ?thesis
          unfolding run pure using xs upd
          by (cases "back_loop_h ops ac ad ?ax (nn - 2) ?h2")
            (auto simp: seq_def intro: exI [of _ "[xs]"])
      next
        case (Inr x')
        then show ?thesis
          unfolding run pure using xs upd
          by (cases "back_loop_h ops ac ad ?ax (nn - 2) ?h2")
            (auto simp: seq_def ret_def intro: exI [of _ "[xs]"])
      qed
    qed
  qed
qed

lemma subst_phase_sim:
  assumes "n mt = nn" and "m mt = h ! am" and "r = h ! ar" and "c = h ! ac"
    and "am < length h" and "ar < length h" and "ac < length h"
  shows "\<exists>ext. snd (subst_phase_h ops nn am ar ac h) = h @ ext
     \<and> (case subst_phase ops mt r c of
           Inl e \<Rightarrow> fst (subst_phase_h ops nn am ar ac h) = Inl e
         | Inr x \<Rightarrow> \<exists>ax. fst (subst_phase_h ops nn am ar ac h) = Inr ax
                       \<and> length h \<le> ax \<and> ax < length (h @ ext) \<and> (h @ ext) ! ax = x)"
proof (cases "make ops nn :: 'a failure + 'a list")
  case (Inl e)
  then show ?thesis
    using assms(1)
    by (auto simp: subst_phase_h_def subst_phase_def seq_def new_def intro: exI [of _ "[]"])
next
  case d0: (Inr d0)
  let ?ad = "length h"
  let ?h1 = "h @ [d0]"
  let ?q = "ap2 (fdiv ops) (index r 0) (index (m mt) 0) :: 'a failure + 'a"
  have n1: "new ops nn h = (Inr ?ad, ?h1)"
    using d0 by (simp add: new_def)
  have q: "op2 (fdiv ops) (rd ar 0) (rd am 0) ?h1 = (?q, ?h1)"
    using assms(2,3,5,6) by (simp add: op2_pure rd_pure nth_append)
  show ?thesis
  proof (cases ?q)
    case (Inl e)
    then show ?thesis
      using assms(1) d0 n1 q
      by (auto simp: subst_phase_h_def subst_phase_def seq_def intro: exI [of _ "[d0]"])
  next
    case v: (Inr v)
    show ?thesis
    proof (cases "store d0 0 v :: 'a failure + 'a list")
      case (Inl e)
      then show ?thesis
        using assms(1) d0 n1 q v wr_fresh [of h 0 v d0 "[]"]
        by (auto simp: subst_phase_h_def subst_phase_def seq_def intro: exI [of _ "[d0]"])
    next
      case d1: (Inr d1)
      let ?h2 = "h @ [d1]"
      have w: "wr ?ad 0 v ?h1 = (Inr (), ?h2)"
        using d1 wr_fresh [of h 0 v d0 "[]"] by simp
      have run: "subst_phase_h ops nn am ar ac h =
          seq (subst_loop_h ops nn am ar ac ?ad 1) (\<lambda>_. back_phase_h ops nn ac ?ad) ?h2"
        using n1 q v w by (simp add: subst_phase_h_def seq_def)
      have pure: "subst_phase ops mt r c =
          and_then (subst_loop ops mt r c d1 1) (\<lambda>d. back_phase ops mt c d)"
        using assms(1) d0 v d1 by (simp add: subst_phase_def)
      obtain ds where ds: "snd (subst_loop_h ops nn am ar ac ?ad 1 ?h2) = ?h2[?ad := ds]"
        "case subst_loop ops mt r c (?h2 ! ?ad) 1 of
           Inl e \<Rightarrow> fst (subst_loop_h ops nn am ar ac ?ad 1 ?h2) = Inl e
         | Inr d' \<Rightarrow> fst (subst_loop_h ops nn am ar ac ?ad 1 ?h2) = Inr () \<and> ds = d'"
        using subst_loop_sim [of mt ?h2 am nn r ar c ac ?ad ops 1] assms
        by (auto simp: nth_append)
      have upd: "?h2[?ad := ds] = h @ [ds]"
        by simp
      show ?thesis
      proof (cases "subst_loop ops mt r c d1 1")
        case (Inl e)
        then show ?thesis
          unfolding run pure using ds upd
          by (cases "subst_loop_h ops nn am ar ac ?ad 1 ?h2")
            (auto simp: seq_def intro: exI [of _ "[ds]"])
      next
        case d': (Inr d')
        let ?h3 = "h @ [d']"
        have loop: "subst_loop_h ops nn am ar ac ?ad 1 ?h2 = (Inr (), ?h3)"
          using ds upd d' by (cases "subst_loop_h ops nn am ar ac ?ad 1 ?h2") auto
        obtain ext where ext: "snd (back_phase_h ops nn ac ?ad ?h3) = ?h3 @ ext"
          "case back_phase ops mt c d' of
             Inl e \<Rightarrow> fst (back_phase_h ops nn ac ?ad ?h3) = Inl e
           | Inr x \<Rightarrow> \<exists>ax. fst (back_phase_h ops nn ac ?ad ?h3) = Inr ax
                       \<and> length ?h3 \<le> ax \<and> ax < length (?h3 @ ext) \<and> (?h3 @ ext) ! ax = x"
          using back_phase_sim [of mt nn c ?h3 ac d' ?ad ops] assms
          by (auto simp: nth_append)
        have "snd (subst_phase_h ops nn am ar ac h) = h @ (d' # ext)"
          unfolding run using loop ext(1) by (simp add: seq_def)
        moreover have "fst (subst_phase_h ops nn am ar ac h) = fst (back_phase_h ops nn ac ?ad ?h3)"
          unfolding run using loop by (simp add: seq_def)
        moreover have "subst_phase ops mt r c = back_phase ops mt c d'"
          unfolding pure using d' by simp
        ultimately show ?thesis
          using ext(2) by (intro exI [of _ "d' # ext"]) (auto split: sum.splits)
      qed
    qed
  qed
qed

lemma TDMA_sim:
  assumes "am < length h" and "ar < length h"
  shows "\<exists>ext. snd (TDMA_h ops nn am ar h) = h @ ext
     \<and> (case TDMA ops \<lparr>n = nn, m = h ! am\<rparr> (h ! ar) of
           Inl e \<Rightarrow> fst (TDMA_h ops nn am ar h) = Inl e
         | Inr x \<Rightarrow> \<exists>ax. fst (TDMA_h ops nn am ar h) = Inr ax
                       \<and> length h \<le> ax \<and> ax < length (h @ ext) \<and> (h @ ext) ! ax = x)"
proof -
  let ?mt = "\<lparr>n = nn, m = h ! am\<rparr>"
  let ?r = "h ! ar"
  let ?ac = "length h"
  note H = TDMA_h_phases [of ops nn am ar]
  note P = TDMA_phases [of ops ?mt ?r]
  have l: "len ar h = (Inr (int (length ?r)), h)"
    by (simp add: len_def)
  show ?thesis
  proof (cases "int (length ?r) = nn")
    case False
    then show ?thesis
      unfolding H P using l by (auto simp: seq_def fail_def intro: exI [of _ "[]"])
  next
    case len: True
    show ?thesis
    proof (cases "make ops (nn - 1) :: 'a failure + 'a list")
      case (Inl e)
      then show ?thesis
        unfolding H P using l len by (auto simp: seq_def new_def intro: exI [of _ "[]"])
    next
      case c0: (Inr c0)
      let ?h1 = "h @ [c0]"
      let ?z = "ap2 (feq ops) (index (m ?mt) 0) (Inr (fzero ops)) :: 'a failure + bool"
      let ?q = "ap2 (fdiv ops) (index (m ?mt) 1) (index (m ?mt) 0) :: 'a failure + 'a"
      have n1: "new ops (nn - 1) h = (Inr ?ac, ?h1)"
        using c0 by (simp add: new_def)
      have z: "op2 (feq ops) (rd am 0) (ret (fzero ops)) ?h1 = (?z, ?h1)"
        using assms(1) by (simp add: op2_pure rd_pure ret_def nth_append)
      have q: "op2 (fdiv ops) (rd am 1) (rd am 0) ?h1 = (?q, ?h1)"
        using assms(1) by (simp add: op2_pure rd_pure nth_append)
      have H1: "TDMA_h ops nn am ar h =
          seq (op2 (feq ops) (rd am 0) (ret (fzero ops))) (\<lambda>z.
           if z then fail (ErrTDMA ZeroM0)
           else
             seq (op2 (fdiv ops) (rd am 1) (rd am 0)) (\<lambda>v.
             seq (wr ?ac 0 v) (\<lambda>_.
             seq (elim_loop_h ops nn am ?ac 1) (\<lambda>_.
             seq (collides_h ops am ?ac (nn - 1)) (\<lambda>eq.
               if eq then collision_h am (nn - 1) else subst_phase_h ops nn am ar ?ac))))) ?h1"
        unfolding H using l len n1 by (simp add: seq_def)
      have P1: "TDMA ops ?mt ?r =
          and_then ?z (\<lambda>z.
          if z then Inl (ErrTDMA ZeroM0)
          else
            and_then ?q (\<lambda>v.
            and_then (store c0 0 v) (\<lambda>c.
            and_then (elim_loop ops ?mt c 1) (\<lambda>c.
            and_then (collides ops ?mt c (n ?mt - 1)) (\<lambda>eq.
              if eq then collision ?mt (n ?mt - 1) else subst_phase ops ?mt ?r c)))))"
        unfolding P using len c0 by simp
      show ?thesis
      proof (cases ?z)
        case (Inl e)
        then show ?thesis
          unfolding H1 P1 using z by (auto simp: seq_def intro: exI [of _ "[c0]"])
      next
        case zz: (Inr zz)
        show ?thesis
        proof (cases zz)
          case True
          then show ?thesis
            unfolding H1 P1 using z zz by (auto simp: seq_def fail_def intro: exI [of _ "[c0]"])
        next
          case nz: False
          show ?thesis
          proof (cases ?q)
            case (Inl e)
            then show ?thesis
              unfolding H1 P1 using z zz nz q by (auto simp: seq_def intro: exI [of _ "[c0]"])
          next
            case v: (Inr v)
            show ?thesis
            proof (cases "store c0 0 v :: 'a failure + 'a list")
              case (Inl e)
              then show ?thesis
                unfolding H1 P1 using z zz nz q v wr_fresh [of h 0 v c0 "[]"]
                by (auto simp: seq_def intro: exI [of _ "[c0]"])
            next
              case c1: (Inr c1)
              let ?h2 = "h @ [c1]"
              have w: "wr ?ac 0 v ?h1 = (Inr (), ?h2)"
                using c1 wr_fresh [of h 0 v c0 "[]"] by simp
              have H2: "TDMA_h ops nn am ar h =
                  seq (elim_loop_h ops nn am ?ac 1) (\<lambda>_.
                  seq (collides_h ops am ?ac (nn - 1)) (\<lambda>eq.
                    if eq then collision_h am (nn - 1) else subst_phase_h ops nn am ar ?ac)) ?h2"
                unfolding H1 using z zz nz q v w by (simp add: seq_def)
              have P2: "TDMA ops ?mt ?r =
                  and_then (elim_loop ops ?mt c1 1) (\<lambda>c.
                  and_then (collides ops ?mt c (nn - 1)) (\<lambda>eq.
                    if eq then collision ?mt (nn - 1) else subst_phase ops ?mt ?r c))"
                unfolding P1 using zz nz v c1 by (simp cong: if_cong)
              obtain cs where cs: "snd (elim_loop_h ops nn am ?ac 1 ?h2) = ?h2[?ac := cs]"
                "case elim_loop ops ?mt (?h2 ! ?ac) 1 of
                   Inl e \<Rightarrow> fst (elim_loop_h ops nn am ?ac 1 ?h2) = Inl e
                 | Inr c' \<Rightarrow> fst (elim_loop_h ops nn am ?ac 1 ?h2) = Inr () \<and> cs = c'"
                using elim_loop_sim [of ?mt ?h2 am nn ?ac ops 1] assms(1)
                by (auto simp: nth_append)
              have upd: "?h2[?ac := cs] = h @ [cs]"
                by simp
              show ?thesis
              proof (cases "elim_loop ops ?mt c1 1")
                case (Inl e)
                then show ?thesis
                  unfolding H2 P2 using cs upd
                  by (cases "elim_loop_h ops nn am ?ac 1 ?h2")
                    (auto simp: seq_def intro: exI [of _ "[cs]"])
              next
                case c': (Inr c')
                let ?h3 = "h @ [c']"
                have loop: "elim_loop_h ops nn am ?ac 1 ?h2 = (Inr (), ?h3)"
                  using cs upd c' by (cases "elim_loop_h ops nn am ?ac 1 ?h2") auto
                have col: "collides_h ops am ?ac (nn - 1) ?h3 = (collides ops ?mt c' (nn - 1), ?h3)"
                  using collides_h_pure [of ?mt ?h3 am ops ?ac "nn - 1"] assms(1)
                  by (simp add: nth_append)
                have H3: "TDMA_h ops nn am ar h =
                    seq (collides_h ops am ?ac (nn - 1)) (\<lambda>eq.
                      if eq then collision_h am (nn - 1) else subst_phase_h ops nn am ar ?ac) ?h3"
                  unfolding H2 using loop by (simp add: seq_def)
                have P3: "TDMA ops ?mt ?r =
                    and_then (collides ops ?mt c' (nn - 1)) (\<lambda>eq.
                      if eq then collision ?mt (nn - 1) else subst_phase ops ?mt ?r c')"
                  unfolding P2 using c' by simp
                show ?thesis
                proof (cases "collides ops ?mt c' (nn - 1)")
                  case (Inl e)
                  then show ?thesis
                    unfolding H3 P3 using col by (auto simp: seq_def intro: exI [of _ "[c']"])
                next
                  case eq: (Inr eq)
                  show ?thesis
                  proof (cases eq)
                    case True
                    obtain e where e: "collision_h am (nn - 1) ?h3 = (Inl e :: 'a failure + nat, ?h3)"
                      "collision ?mt (nn - 1) = (Inl e :: 'a failure + 'a list)"
                      using collision_h_pure [of ?mt ?h3 am "nn - 1"] assms(1)
                      by (auto simp: nth_append)
                    show ?thesis
                      unfolding H3 P3 using col eq True e
                      by (auto simp: seq_def intro: exI [of _ "[c']"])
                  next
                    case False
                    obtain ext where ext: "snd (subst_phase_h ops nn am ar ?ac ?h3) = ?h3 @ ext"
                      "case subst_phase ops ?mt ?r c' of
                         Inl e \<Rightarrow> fst (subst_phase_h ops nn am ar ?ac ?h3) = Inl e
                       | Inr x \<Rightarrow> \<exists>ax. fst (subst_phase_h ops nn am ar ?ac ?h3) = Inr ax
                           \<and> length ?h3 \<le> ax \<and> ax < length (?h3 @ ext) \<and> (?h3 @ ext) ! ax = x"
                      using subst_phase_sim [of ?mt nn ?h3 am ?r ar c' ?ac ops] assms
                      by (auto simp: nth_append)
                    have "TDMA_h ops nn am ar h = subst_phase_h ops nn am ar ?ac ?h3"
                      unfolding H3 using col eq False by (simp add: seq_def)
                    moreover have "TDMA ops ?mt ?r = subst_phase ops ?mt ?r c'"
                      unfolding P3 using eq False by simp
                    ultimately show ?thesis
                      using ext by (intro exI [of _ "c' # ext"]) (auto split: sum.splits)
                  qed
                qed
              qed
            qed
          qed
        qed
      qed
    qed
  qed
qed

lemma TDMA_h_outcome:
  assumes "am < length h" and "ar < length h"
  shows "outcome (snd (TDMA_h ops nn am ar h)) (fst (TDMA_h ops nn am ar h))
      = TDMA ops \<lparr>n = nn, m = h ! am\<rparr> (h ! ar)"
    and "take (length h) (snd (TDMA_h ops nn am ar h)) = h"
proof -
  obtain ext where ext: "snd (TDMA_h ops nn am ar h) = h @ ext"
    "case TDMA ops \<lparr>n = nn, m = h ! am\<rparr> (h ! ar) of
       Inl e \<Rightarrow> fst (TDMA_h ops nn am ar h) = Inl e
     | Inr x \<Rightarrow> \<exists>ax. fst (TDMA_h ops nn am ar h) = Inr ax
         \<and> length h \<le> ax \<and> ax < length (h @ ext) \<and> (h @ ext) ! ax = x"
    using TDMA_sim [OF assms, of ops nn] by blast
  show "take (length h) (snd (TDMA_h ops nn am ar h)) = h"
    by (simp add: ext(1))
  show "outcome (snd (TDMA_h ops nn am ar h)) (fst (TDMA_h ops nn am ar h))
      = TDMA ops \<lparr>n = nn, m = h ! am\<rparr> (h ! ar)"
    using ext by (auto simp: outcome_def split: sum.splits)
qed

text \<open>
  C9: the outcome of a call of \<open>TDMA\<close> in a store (the error, or the contents of the
  returned slice) is determined by \<open>n\<close> and the contents of the two slices it is given:
  two calls whose inputs have the same contents have the same outcome, whatever else the
  two stores hold and wherever the slices lie. A call changes no slice that existed
  before it, so a second call on the same matrix and right-hand side has the same inputs.
\<close>

theorem TDMA_deterministic:
  assumes "am < length h" and "ar < length h" and "am' < length h'" and "ar' < length h'"
    and "h ! am = h' ! am'" and "h ! ar = h' ! ar'"
  shows "outcome (snd (TDMA_h ops nn am ar h)) (fst (TDMA_h ops nn am ar h))
      = outcome (snd (TDMA_h ops nn am' ar' h')) (fst (TDMA_h ops nn am' ar' h'))
    \<and> take (length h) (snd (TDMA_h ops nn am ar h)) = h"
  using TDMA_h_outcome [OF assms(1,2), of ops nn] TDMA_h_outcome [OF assms(3,4), of ops nn]
    assms(5,6)
  by simp

lemmas store_eval = TDMA_h_def seq_def op2_def ret_def fail_def len_def rd_def wr_def new_def
  collides_h_def pivot_h_def collision_h_def elim_loop_h.simps subst_loop_h.simps
  back_loop_h.simps outcome_def

theorem TDMA_deterministic_witness:
  "TDMA_h ieee 2 0 1 [map f64_of_int [2, 1, 1, 2], map f64_of_int [4, 5]]
     = (Inr 4, [map f64_of_int [2, 1, 1, 2], map f64_of_int [4, 5],
                [f64_div (f64_of_int 1) (f64_of_int 2)], map f64_of_int [2, 2],
                map f64_of_int [1, 2]])
   \<and> outcome (snd (TDMA_h ieee 2 0 1 [map f64_of_int [2, 1, 1, 2], map f64_of_int [4, 5]]))
        (fst (TDMA_h ieee 2 0 1 [map f64_of_int [2, 1, 1, 2], map f64_of_int [4, 5]]))
     = outcome
        (snd (TDMA_h ieee 2 0 1
               [map f64_of_int [2, 1, 1, 2], map f64_of_int [4, 5],
                [f64_div (f64_of_int 1) (f64_of_int 2)], map f64_of_int [2, 2],
                map f64_of_int [1, 2]]))
        (fst (TDMA_h ieee 2 0 1
               [map f64_of_int [2, 1, 1, 2], map f64_of_int [4, 5],
                [f64_div (f64_of_int 1) (f64_of_int 2)], map f64_of_int [2, 2],
                map f64_of_int [1, 2]]))"
proof -
  let ?h = "[map f64_of_int [2, 1, 1, 2], map f64_of_int [4, 5]]"
  let ?h1 = "[map f64_of_int [2, 1, 1, 2], map f64_of_int [4, 5],
                [f64_div (f64_of_int 1) (f64_of_int 2)], map f64_of_int [2, 2],
                map f64_of_int [1, 2]]"
  have run: "TDMA_h ieee 2 0 1 ?h = (Inr 4, ?h1)"
    by (simp add: store_eval tdma_eval f64_eval cong: let_weak_cong)
  have "outcome (snd (TDMA_h ieee 2 0 1 ?h)) (fst (TDMA_h ieee 2 0 1 ?h))
      = outcome (snd (TDMA_h ieee 2 0 1 ?h1)) (fst (TDMA_h ieee 2 0 1 ?h1))"
    using TDMA_deterministic [of 0 ?h 1 0 ?h1 1 ieee 2] by simp
  with run show ?thesis
    by blast
qed

end
